theory Spec2Isabelle
  imports Main "HOL-Library.Finite_Map" "HOL-Library.Char_ord" "HOL-Library.List_Lexorder"
    "HOL-Library.Sublist" "HOL-Library.Multiset"
begin

section \<open>The dag package (run/dag/dag.go)\<close>

subsection \<open>Data\<close>

text \<open>
  \<^verbatim>\<open>type ID string\<close>. Go compares strings byte by byte, a proper prefix being smaller:
  the lexicographic order on character lists over the order of the character codes.
  The source's variable \<^verbatim>\<open>id\<close> is \<open>nid\<close> below (\<open>id\<close> is the identity function of HOL), and
  the parameters \<^verbatim>\<open>before\<close> and \<^verbatim>\<open>after\<close> of \<^verbatim>\<open>AddNode\<close> are \<open>before_ids\<close> and \<open>after_ids\<close>.
\<close>

type_synonym ID = string

text \<open>
  The struct \<^verbatim>\<open>DAG\<close>. Go maps are finite, hence finite maps; the field \<^verbatim>\<open>values\<close> is
  \<open>node_values\<close> here. \<^verbatim>\<open>New\<close> leaves \<^verbatim>\<open>cycles\<close> nil, and reading a nil map gives the zero
  value, as reading an empty one does; only \<^verbatim>\<open>Validate\<close> writes to it, after \<^verbatim>\<open>make\<close>.
\<close>

record 'v DAG =
  dag :: "(ID, ID list) fmap"
  node_values :: "(ID, 'v) fmap"
  cycles :: "(ID, bool) fmap"
  validated :: bool

text \<open>
  The three error constants. \<^verbatim>\<open>errutil.Chain\<close> attaches a message naming the node id to
  \<^verbatim>\<open>ErrDuplicateNode\<close> and \<^verbatim>\<open>ErrCycleDetected\<close>; the constructor carries that id.
\<close>

datatype error = ErrDuplicateNode ID | ErrNodeNotFound | ErrCycleDetected ID

definition New :: "'v DAG" where
  "New = \<lparr>dag = fmempty, node_values = fmempty, cycles = fmempty, validated = False\<rparr>"

subsection \<open>idList\<close>

fun contains :: "ID list \<Rightarrow> ID \<Rightarrow> bool" where
  "contains [] other = False"
| "contains (nid # ids) other = (if nid = other then True else contains ids other)"

text \<open>\<^verbatim>\<open>sortedIds\<close> copies the slice and sorts the copy by \<^verbatim>\<open>Less\<close>, that is \<open><\<close> on ids.\<close>

definition sortedIds :: "ID list \<Rightarrow> ID list" where
  "sortedIds ids = sort ids"

subsection \<open>Store\<close>

text \<open>
  Indexing the adjacency map, \<^verbatim>\<open>d.dag[id]\<close>: the edge list of a key, the nil slice (no
  element) for any other id.
\<close>

definition dag_at :: "(ID, ID list) fmap \<Rightarrow> ID \<Rightarrow> ID list" where
  "dag_at dg nid = (case fmlookup dg nid of None \<Rightarrow> [] | Some tlist \<Rightarrow> tlist)"

definition ChildrenOf :: "'v DAG \<Rightarrow> ID \<Rightarrow> ID list" where
  "ChildrenOf d nid = dag_at (dag d) nid"

text \<open>
  \<^verbatim>\<open>addEdge\<close> panics when \<^verbatim>\<open>from\<close> is no key of \<^verbatim>\<open>d.dag\<close>: the panic is the left
  summand, carrying its message.
\<close>

definition addEdge :: "'v DAG \<Rightarrow> ID \<Rightarrow> ID \<Rightarrow> string + 'v DAG" where
  "addEdge d from to =
     (case fmlookup (dag d) from of
        None \<Rightarrow> Inl ''internal error: empty list of edges must exist at this point''
      | Some fromEdges \<Rightarrow>
          Inr (d\<lparr>dag := fmupd from
                 (if \<not> contains fromEdges to then fromEdges @ [to] else fromEdges) (dag d)\<rparr>))"

fun addEdges :: "'v DAG \<Rightarrow> ID \<Rightarrow> ID list \<Rightarrow> string + 'v DAG" where
  "addEdges d from [] = Inr d"
| "addEdges d from (to # toids) =
     (case addEdge d from to of
        Inl p \<Rightarrow> Inl p
      | Inr d' \<Rightarrow> addEdges d' from toids)"

text \<open>The loop of \<^verbatim>\<open>AddNode\<close> over \<^verbatim>\<open>before\<close>.\<close>

fun AddNode_before :: "'v DAG \<Rightarrow> ID \<Rightarrow> ID list \<Rightarrow> string + 'v DAG" where
  "AddNode_before d nid [] = Inr d"
| "AddNode_before d nid (bid # before_ids) =
     (case addEdge (if bid |\<notin>| fmdom (dag d) then d\<lparr>dag := fmupd bid [] (dag d)\<rparr> else d) bid nid of
        Inl p \<Rightarrow> Inl p
      | Inr d' \<Rightarrow> AddNode_before d' nid before_ids)"

text \<open>
  \<^verbatim>\<open>AddNode\<close> mutates the receiver and returns an error or nil: the result is the structure
  after the call with the returned error, or the panic of \<^verbatim>\<open>addEdge\<close>.
\<close>

definition AddNode ::
  "'v DAG \<Rightarrow> ID \<Rightarrow> 'v \<Rightarrow> ID list \<Rightarrow> ID list \<Rightarrow> string + ('v DAG \<times> error option)" where
  "AddNode d nid val before_ids after_ids =
     (if nid |\<in>| fmdom (node_values d) then Inr (d, Some (ErrDuplicateNode nid))
      else case AddNode_before d nid before_ids of
        Inl p \<Rightarrow> Inl p
      | Inr d1 \<Rightarrow>
          (case addEdges (if nid |\<notin>| fmdom (dag d1) then d1\<lparr>dag := fmupd nid [] (dag d1)\<rparr> else d1)
                  nid after_ids of
             Inl p \<Rightarrow> Inl p
           | Inr d2 \<Rightarrow>
               Inr (d2\<lparr>node_values := fmupd nid val (node_values d2), validated := False\<rparr>, None)))"

text \<open>
  \<^verbatim>\<open>IDs\<close> ranges over the keys of \<^verbatim>\<open>d.dag\<close>, in an order Go leaves open, and sorts what it
  collected. \<open>IDs_of\<close> is the function of the collected keys; \<open>IDs\<close> collects them in one
  order.
\<close>

definition IDs_of :: "ID list \<Rightarrow> ID list" where
  "IDs_of idlist = sort idlist"

definition IDs :: "'v DAG \<Rightarrow> ID list" where
  "IDs d = IDs_of (sorted_list_of_fset (fmdom (dag d)))"

definition Node :: "'v DAG \<Rightarrow> ID \<Rightarrow> error + 'v" where
  "Node d nid = (case fmlookup (node_values d) nid of None \<Rightarrow> Inl ErrNodeNotFound | Some v \<Rightarrow> Inr v)"

subsection \<open>Validator\<close>

text \<open>
  The second loop of \<^verbatim>\<open>hasCycle\<close>: the body runs on each element in turn, on the cycle set
  the earlier ones left, until one reports \<^verbatim>\<open>found\<close>; after the last one the loop falls
  through to \<^verbatim>\<open>return false, ""\<close>.
\<close>

fun range_found ::
  "('a \<Rightarrow> 'c \<Rightarrow> 'c \<times> bool \<times> string) \<Rightarrow> 'a list \<Rightarrow> 'c \<Rightarrow> 'c \<times> bool \<times> string" where
  "range_found body [] c = (c, False, [])"
| "range_found body (x # xs) c =
     (case body x c of
        (c', found, reason) \<Rightarrow> if found then (c', True, reason) else range_found body xs c')"

lemma range_found_cong [fundef_cong]:
  assumes "xs = ys" and "c = c'" and "\<And>x s. x \<in> set ys \<Longrightarrow> f x s = g x s"
  shows "range_found f xs c = range_found g ys c'"
  using assms by (induction ys arbitrary: xs c c') (auto split: prod.splits)

text \<open>
  \<^verbatim>\<open>hasCycle\<close> reads \<^verbatim>\<open>d.dag\<close> and writes \<^verbatim>\<open>d.cycles\<close>: it takes the adjacency map, and
  takes and returns the cycle set.
\<close>

function hasCycle ::
  "(ID, ID list) fmap \<Rightarrow> (ID, bool) fmap \<Rightarrow> ID list \<Rightarrow> ID list \<Rightarrow> string
     \<Rightarrow> (ID, bool) fmap \<times> bool \<times> string" where
  "hasCycle dg cyc branch children reason =
     (case find (contains children) branch of
        Some nid \<Rightarrow> (fmupd nid True cyc, True, reason @ '' '' @ nid)
      | None \<Rightarrow>
          range_found
            (\<lambda>tid c. hasCycle dg c (branch @ [tid]) (dag_at dg tid)
                 (reason @ '' '' @ tid @ '' ->''))
            (sortedIds children) cyc)"
  by pat_completeness auto


lemma contains_iff: "contains ids x \<longleftrightarrow> x \<in> set ids"
  by (induction ids) auto

lemma find_contains_None:
  "find (contains children) branch = None \<longleftrightarrow> set branch \<inter> set children = {}"
  by (auto simp: find_None_iff contains_iff)

text \<open>
  Every recursive call extends the branch by a child that is not on it. A child that is a
  key of the map leaves fewer keys off the branch; one that is no key has no children, and
  the call on it returns at once.
\<close>

termination hasCycle
proof (relation "measure (\<lambda>(dg, cyc, branch, children, reason).
          if children = [] then 0 else Suc (card (fmdom' dg - set branch)))", goal_cases)
  case 1
  show ?case by simp
next
  case (2 dg cyc branch children reason tid c)
  from 2 have tid: "tid \<in> set children" and nb: "tid \<notin> set branch"
    by (auto simp: sortedIds_def find_contains_None)
  then have ne: "children \<noteq> []" by auto
  show ?case
  proof (cases "fmlookup dg tid")
    case None
    with ne show ?thesis by (simp add: dag_at_def)
  next
    case (Some tlist)
    then have "tid \<in> fmdom' dg - set branch" using nb by (auto simp: fmdom'I)
    moreover have "finite (fmdom' dg - set branch)" by simp
    ultimately have "card (fmdom' dg - set branch - {tid}) < card (fmdom' dg - set branch)"
      by (simp add: card_Diff1_less del: card_Diff_insert)
    moreover have "fmdom' dg - set (branch @ [tid]) = fmdom' dg - set branch - {tid}"
      by auto
    ultimately have "card (fmdom' dg - set (branch @ [tid])) < card (fmdom' dg - set branch)"
      by simp
    with ne Some show ?thesis by (simp add: dag_at_def)
  qed
qed

definition validateNode ::
  "'v DAG \<Rightarrow> ID \<Rightarrow> ID list \<Rightarrow> 'v DAG \<times> string \<times> error option" where
  "validateNode d nid children =
     (case hasCycle (dag d) (cycles d) [nid] children (nid @ '' ->'') of
        (cyc, found, reason) \<Rightarrow>
          if found then (d\<lparr>cycles := fmupd nid True cyc\<rparr>, reason, Some (ErrCycleDetected nid))
          else (d\<lparr>cycles := cyc\<rparr>, [], None))"

text \<open>The loop of \<^verbatim>\<open>Validate\<close> over the ids; it returns at the first error.\<close>

fun Validate_range :: "'v DAG \<Rightarrow> ID list \<Rightarrow> 'v DAG \<times> string \<times> error option" where
  "Validate_range d [] = (d, [], None)"
| "Validate_range d (nid # ids) =
     (case validateNode d nid (ChildrenOf d nid) of
        (d', reason, err) \<Rightarrow>
          if err \<noteq> None then (d', reason, err) else Validate_range d' ids)"

definition Validate :: "'v DAG \<Rightarrow> 'v DAG \<times> string \<times> error option" where
  "Validate d =
     (let d0 = d\<lparr>cycles := fmempty, validated := True\<rparr> in Validate_range d0 (IDs d0))"

text \<open>\<^verbatim>\<open>d.cycles[id]\<close>: false for an id that is no key.\<close>

definition cycles_at :: "'v DAG \<Rightarrow> ID \<Rightarrow> bool" where
  "cycles_at d nid = (case fmlookup (cycles d) nid of None \<Rightarrow> False | Some b \<Rightarrow> b)"

definition HasCycle :: "'v DAG \<Rightarrow> ID \<Rightarrow> 'v DAG \<times> bool" where
  "HasCycle d nid =
     (if \<not> validated d then
        (case Validate d of
           (d', reason, err) \<Rightarrow> if err = None then (d', False) else (d', cycles_at d' nid))
      else (d, cycles_at d nid))"

subsection \<open>Orderer\<close>

text \<open>
  \<^verbatim>\<open>walkFrom\<close> has no guard against a cycle and recurses for ever on one: its result is
  an option, \<open>None\<close> when the walk does not return. The callback \<^verbatim>\<open>do\<close> changes the variables
  its closure captured, the state \<open>'s\<close> here. \<open>range_walk\<close> is the loop over the sorted
  children.
\<close>

primrec range_walk :: "('a \<Rightarrow> 's \<Rightarrow> 's option) \<Rightarrow> 'a list \<Rightarrow> 's \<Rightarrow> 's option" where
  "range_walk body [] s = Some s"
| "range_walk body (x # xs) s =
     (case body x s of None \<Rightarrow> None | Some s' \<Rightarrow> range_walk body xs s')"

lemma range_walk_mono [partial_function_mono]:
  assumes "\<And>x s. mono_option (\<lambda>f. body f x s)"
  shows "mono_option (\<lambda>f. range_walk (body f) xs s)"
proof (induction xs arbitrary: s)
  case Nil
  show ?case by (simp add: option.const_mono)
next
  case (Cons x xs)
  have "mono_option (\<lambda>f. Option.bind (body f x s) (\<lambda>s'. range_walk (body f) xs s'))"
    by (rule bind_mono) (use assms Cons in auto)
  moreover have "(\<lambda>f. range_walk (body f) (x # xs) s)
      = (\<lambda>f. Option.bind (body f x s) (\<lambda>s'. range_walk (body f) xs s'))"
    by (auto simp: fun_eq_iff split: option.splits)
  ultimately show ?case by simp
qed

partial_function (option) walkFrom ::
  "(ID, ID list) fmap \<Rightarrow> (ID \<Rightarrow> 's \<Rightarrow> 's) \<Rightarrow> ID \<Rightarrow> 's \<Rightarrow> 's option" where
  "walkFrom dg do nid s =
     Option.bind
       (range_walk (\<lambda>tid s'. walkFrom dg do tid s')
          (sortedIds (dag_at dg nid)) s)
       (\<lambda>s'. Some (do nid s'))"

declare walkFrom.simps [code]

text \<open>
  The closure \<^verbatim>\<open>Order\<close> passes to \<^verbatim>\<open>walkFrom\<close>, on the variables \<^verbatim>\<open>order\<close> and
  \<^verbatim>\<open>visited\<close> (a map to the empty struct: a finite set).
\<close>

definition Order_do :: "ID \<Rightarrow> ID list \<times> ID fset \<Rightarrow> ID list \<times> ID fset" where
  "Order_do nid st =
     (case st of (order, visited) \<Rightarrow>
        (if nid |\<notin>| visited then order @ [nid] else order, finsert nid visited))"

fun Order_range ::
  "(ID, ID list) fmap \<Rightarrow> ID list \<Rightarrow> ID list \<times> ID fset \<Rightarrow> (ID list \<times> ID fset) option" where
  "Order_range dg [] st = Some st"
| "Order_range dg (nid # ids) st =
     (if nid |\<in>| snd st then Order_range dg ids st
      else case walkFrom dg Order_do nid st of
        None \<Rightarrow> None
      | Some (order, visited) \<Rightarrow> Order_range dg ids (order, finsert nid visited))"

definition Order :: "'v DAG \<Rightarrow> ID list option" where
  "Order d =
     (case Order_range (dag d) (IDs d) ([], {||}) of
        None \<Rightarrow> None
      | Some (order, visited) \<Rightarrow> Some order)"

section \<open>Notions used to state the properties\<close>

text \<open>
  The edge relation of an adjacency map: \<open>(u, v)\<close> is an edge when \<open>v\<close> is in the edge list
  of \<open>u\<close>. Only a key has a non-empty edge list, so the pairs are collected over the keys.
\<close>

definition edges :: "(ID, ID list) fmap \<Rightarrow> (ID \<times> ID) set" where
  "edges dg = set (concat (map (\<lambda>u. map (Pair u) (dag_at dg u)) (sorted_list_of_fset (fmdom dg))))"

text \<open>
  \<open>appears_before order v u\<close>: \<open>u\<close> occurs in \<open>order\<close>, and \<open>v\<close> occurs before the first
  occurrence of \<open>u\<close>.
\<close>

definition appears_before :: "ID list \<Rightarrow> ID \<Rightarrow> ID \<Rightarrow> bool" where
  "appears_before order v u = (v \<in> set (takeWhile (\<lambda>x. x \<noteq> u) order) \<and> u \<in> set order)"

text \<open>
  A client that makes a sequence of \<^verbatim>\<open>AddNode\<close> calls on one structure, each call on the
  structure the one before it left, and keeps what each call returned. Over the calls
  that returned nil, \<open>keys_declared\<close> collects the id inserted and its predecessor hints,
  and \<open>edges_declared\<close> the edges declared: \<open>bid \<rightarrow> id\<close> for a predecessor hint \<open>bid\<close> and
  \<open>id \<rightarrow> to\<close> for a successor hint \<open>to\<close> of the id inserted.
\<close>

type_synonym 'v call = "ID \<times> 'v \<times> ID list \<times> ID list"

fun AddNodes :: "'v DAG \<Rightarrow> 'v call list \<Rightarrow> string + ('v DAG \<times> error option list)" where
  "AddNodes d [] = Inr (d, [])"
| "AddNodes d ((nid, val, before_ids, after_ids) # calls) =
     (case AddNode d nid val before_ids after_ids of
        Inl p \<Rightarrow> Inl p
      | Inr (d', err) \<Rightarrow>
          (case AddNodes d' calls of
             Inl p \<Rightarrow> Inl p
           | Inr (d'', errs) \<Rightarrow> Inr (d'', err # errs)))"

definition keys_declared :: "'v call list \<Rightarrow> error option list \<Rightarrow> ID set" where
  "keys_declared calls errs =
     set (concat (map (\<lambda>((nid, val, before_ids, after_ids), err).
                          if err = None then nid # before_ids else [])
                      (zip calls errs)))"

definition edges_declared :: "'v call list \<Rightarrow> error option list \<Rightarrow> (ID \<times> ID) set" where
  "edges_declared calls errs =
     set (concat (map (\<lambda>((nid, val, before_ids, after_ids), err).
                          if err = None
                          then map (\<lambda>bid. (bid, nid)) before_ids @ map (\<lambda>to. (nid, to)) after_ids
                          else [])
                      (zip calls errs)))"

text \<open>
  \<open>targets_declared calls errs u\<close> is the sequence of targets of the edges with source \<open>u\<close>
  that the calls which returned nil declared, in the order \<^verbatim>\<open>AddNode\<close> meets them: call
  after call, and in one call first the id inserted once for each occurrence of \<open>u\<close> among
  the predecessor hints, then, when \<open>u\<close> is the id inserted, the successor hints from left
  to right. \<open>first_occurrences\<close> keeps of every element of a list its first occurrence.
\<close>

fun first_occurrences :: "'a list \<Rightarrow> 'a list" where
  "first_occurrences [] = []"
| "first_occurrences (x # xs) = x # first_occurrences (filter (\<lambda>y. y \<noteq> x) xs)"

definition targets_declared :: "'v call list \<Rightarrow> error option list \<Rightarrow> ID \<Rightarrow> ID list" where
  "targets_declared calls errs u =
     concat (map (\<lambda>((nid, val, before_ids, after_ids), err).
                    if err = None
                    then map (\<lambda>bid. nid) (filter (\<lambda>bid. bid = u) before_ids)
                         @ (if nid = u then after_ids else [])
                    else [])
                 (zip calls errs))"

section \<open>Properties of the store\<close>

lemma dag_at_notin: "u |\<notin>| fmdom dg \<Longrightarrow> dag_at dg u = []"
  by (simp add: dag_at_def fmdom_notD)

lemma edges_iff: "(u, v) \<in> edges dg \<longleftrightarrow> v \<in> set (dag_at dg u)"
proof
  assume "(u, v) \<in> edges dg"
  then show "v \<in> set (dag_at dg u)" by (auto simp: edges_def)
next
  assume v: "v \<in> set (dag_at dg u)"
  have "u |\<in>| fmdom dg"
  proof (rule ccontr)
    assume "u |\<notin>| fmdom dg"
    then have "dag_at dg u = []" by (rule dag_at_notin)
    with v show False by simp
  qed
  with v show "(u, v) \<in> edges dg" by (auto simp: edges_def)
qed

lemma finite_edges: "finite (edges dg)"
  by (simp add: edges_def)

lemma addEdge_key:
  assumes "from |\<in>| fmdom (dag d)"
  shows "addEdge d from to = Inr (d\<lparr>dag := fmupd from
           (if to \<in> set (ChildrenOf d from) then ChildrenOf d from else ChildrenOf d from @ [to])
           (dag d)\<rparr>)"
proof -
  from assms obtain es where "fmlookup (dag d) from = Some es"
    by (auto dest: fmdomE)
  then show ?thesis by (simp add: addEdge_def ChildrenOf_def dag_at_def contains_iff)
qed

lemma addEdge_panics_iff: "(\<exists>p. addEdge d from to = Inl p) \<longleftrightarrow> from |\<notin>| fmdom (dag d)"
  by (auto simp: addEdge_def fmdom_notI split: option.splits dest: fmdom_notD fmdomI)

lemma addEdge_Inr_fields:
  assumes "addEdge d from to = Inr d'"
  shows "fmdom (dag d') = fmdom (dag d)" "node_values d' = node_values d"
    "cycles d' = cycles d" "validated d' = validated d" "from |\<in>| fmdom (dag d)"
  using assms by (auto simp: addEdge_def split: option.splits intro: fmdomI)

lemma addEdges_key:
  "from |\<in>| fmdom (dag d) \<Longrightarrow>
     \<exists>d'. addEdges d from toids = Inr d' \<and> fmdom (dag d') = fmdom (dag d)
       \<and> node_values d' = node_values d \<and> cycles d' = cycles d \<and> validated d' = validated d"
proof (induction toids arbitrary: d)
  case Nil
  then show ?case by simp
next
  case (Cons to toids)
  let ?d1 = "d\<lparr>dag := fmupd from
           (if to \<in> set (ChildrenOf d from) then ChildrenOf d from else ChildrenOf d from @ [to])
           (dag d)\<rparr>"
  have 1: "addEdge d from to = Inr ?d1" using Cons.prems by (rule addEdge_key)
  have "from |\<in>| fmdom (dag ?d1)" by simp
  from Cons.IH[OF this] Cons.prems 1 show ?case by auto
qed

lemma AddNode_before_ok:
  "\<exists>d'. AddNode_before d nid before_ids = Inr d' \<and> fmdom (dag d) |\<subseteq>| fmdom (dag d')
     \<and> fset_of_list before_ids |\<subseteq>| fmdom (dag d')
     \<and> node_values d' = node_values d \<and> cycles d' = cycles d \<and> validated d' = validated d"
proof (induction before_ids arbitrary: d)
  case Nil
  then show ?case by simp
next
  case (Cons bid before_ids)
  let ?d0 = "if bid |\<notin>| fmdom (dag d) then d\<lparr>dag := fmupd bid [] (dag d)\<rparr> else d"
  have k: "bid |\<in>| fmdom (dag ?d0)" by simp
  from addEdge_key[OF k] obtain d1 where 1: "addEdge ?d0 bid nid = Inr d1" by blast
  note f = addEdge_Inr_fields[OF 1]
  from Cons.IH[of d1] obtain d' where 2: "AddNode_before d1 nid before_ids = Inr d'"
    "fmdom (dag d1) |\<subseteq>| fmdom (dag d')" "fset_of_list before_ids |\<subseteq>| fmdom (dag d')"
    "node_values d' = node_values d1" "cycles d' = cycles d1" "validated d' = validated d1"
    by blast
  have "fmdom (dag d) |\<subseteq>| fmdom (dag ?d0)" by auto
  with 1 2 f k show ?case by (auto split: if_splits)
qed

text \<open>
  C10. The panic of \<open>addEdge\<close> is real (it is raised exactly when \<open>from\<close> is no key of the
  adjacency map), and no call of \<open>AddNode\<close> reaches it: whatever the structure, the id and
  the two lists of hints, \<open>AddNode\<close> returns normally. The loop over the predecessors makes
  the predecessor a key before it calls \<open>addEdge\<close>, and the id itself is made a key before
  \<open>addEdges\<close> runs on the successors.
\<close>

theorem AddNode_never_panics:
  "(\<exists>r. AddNode d nid val before_ids after_ids = Inr r)
   \<and> ((\<exists>p. addEdge d from to = Inl p) = (from |\<notin>| fmdom (dag d)))"
proof
  show "\<exists>r. AddNode d nid val before_ids after_ids = Inr r"
  proof (cases "nid |\<in>| fmdom (node_values d)")
    case True
    then show ?thesis by (simp add: AddNode_def)
  next
    case False
    obtain d1 where 1: "AddNode_before d nid before_ids = Inr d1"
      using AddNode_before_ok by blast
    let ?d2 = "if nid |\<notin>| fmdom (dag d1) then d1\<lparr>dag := fmupd nid [] (dag d1)\<rparr> else d1"
    have "nid |\<in>| fmdom (dag ?d2)" by simp
    from addEdges_key[OF this] obtain d3 where "addEdges ?d2 nid after_ids = Inr d3" by blast
    with False 1 show ?thesis by (simp add: AddNode_def)
  qed
  show "(\<exists>p. addEdge d from to = Inl p) = (from |\<notin>| fmdom (dag d))"
    by (rule addEdge_panics_iff)
qed

text \<open>
  C3. When the id already has an entry in the value map, \<open>AddNode\<close> returns
  \<open>ErrDuplicateNode\<close> and the structure after the call is the structure before it: the
  values, every adjacency list, the cycle set and the validated flag are untouched. So
  after a successful insertion a second insertion of the same id, with whatever value and
  hints, fails and changes nothing, and \<open>Node\<close> still returns the first value.
\<close>

theorem AddNode_duplicate_unchanged:
  "(nid |\<in>| fmdom (node_values d) \<longrightarrow>
      AddNode d nid val before_ids after_ids = Inr (d, Some (ErrDuplicateNode nid)))
   \<and> (AddNode d nid val before_ids after_ids = Inr (d', None) \<longrightarrow>
        Node d' nid = Inr val
        \<and> AddNode d' nid val' before_ids' after_ids' = Inr (d', Some (ErrDuplicateNode nid)))"
  by (auto simp: AddNode_def Node_def split: sum.splits if_splits)

theorem AddNode_duplicate_unchanged_witness:
  "''A'' |\<in>| fmdom (node_values
      \<lparr>dag = fmupd ''A'' [''B''] fmempty, node_values = fmupd ''A'' (1::nat) fmempty,
       cycles = fmupd ''Z'' True fmempty, validated = True\<rparr>)
   \<and> AddNode
      \<lparr>dag = fmupd ''A'' [''B''] fmempty, node_values = fmupd ''A'' (1::nat) fmempty,
       cycles = fmupd ''Z'' True fmempty, validated = True\<rparr> ''A'' 2 [''X''] [''Y'']
     = Inr (\<lparr>dag = fmupd ''A'' [''B''] fmempty, node_values = fmupd ''A'' (1::nat) fmempty,
           cycles = fmupd ''Z'' True fmempty, validated = True\<rparr>, Some (ErrDuplicateNode ''A''))
   \<and> AddNode (New :: nat DAG) ''A'' 1 [] [''B'']
     = Inr (\<lparr>dag = fmupd ''A'' [''B''] fmempty, node_values = fmupd ''A'' (1::nat) fmempty,
           cycles = fmempty, validated = False\<rparr>, None)
   \<and> Node \<lparr>dag = fmupd ''A'' [''B''] fmempty, node_values = fmupd ''A'' (1::nat) fmempty,
           cycles = fmempty, validated = False\<rparr> ''A'' = Inr 1
   \<and> AddNode
      \<lparr>dag = fmupd ''A'' [''B''] fmempty, node_values = fmupd ''A'' (1::nat) fmempty,
       cycles = fmempty, validated = False\<rparr> ''A'' 2 [''X''] [''Y'']
     = Inr (\<lparr>dag = fmupd ''A'' [''B''] fmempty, node_values = fmupd ''A'' (1::nat) fmempty,
           cycles = fmempty, validated = False\<rparr>, Some (ErrDuplicateNode ''A''))"
proof -
  let ?d = "\<lparr>dag = fmupd ''A'' [''B''] fmempty, node_values = fmupd ''A'' (1::nat) fmempty,
       cycles = fmupd ''Z'' True fmempty, validated = True\<rparr>"
  let ?d' = "\<lparr>dag = fmupd ''A'' [''B''] fmempty, node_values = fmupd ''A'' (1::nat) fmempty,
       cycles = fmempty, validated = False\<rparr>"
  have k: "''A'' |\<in>| fmdom (node_values ?d)" by simp
  have a: "AddNode (New :: nat DAG) ''A'' 1 [] [''B''] = Inr (?d', None)"
    by (simp add: AddNode_def New_def addEdge_def)
  from AddNode_duplicate_unchanged[of "''A''" ?d 2 "[''X'']" "[''Y'']"] k
  have 1: "AddNode ?d ''A'' 2 [''X''] [''Y''] = Inr (?d, Some (ErrDuplicateNode ''A''))"
    by blast
  from AddNode_duplicate_unchanged[of "''A''" New 1 "[]" "[''B'']" ?d' 2 "[''X'']" "[''Y'']"] a
  have 2: "Node ?d' ''A'' = Inr 1"
    "AddNode ?d' ''A'' 2 [''X''] [''Y''] = Inr (?d', Some (ErrDuplicateNode ''A''))"
    by blast+
  show ?thesis using k a 1 2 by simp
qed

subsection \<open>Edge lists only grow\<close>

text \<open>
  \<open>grows d d'\<close>: every key stays a key, every edge list of \<open>d\<close> is an initial segment of the
  one in \<open>d'\<close>, and edge lists without a repeated id stay so.
\<close>

definition grows :: "'v DAG \<Rightarrow> 'v DAG \<Rightarrow> bool" where
  "grows d d' \<longleftrightarrow>
     fmdom (dag d) |\<subseteq>| fmdom (dag d')
     \<and> (\<forall>u. prefix (ChildrenOf d u) (ChildrenOf d' u))
     \<and> ((\<forall>u. distinct (ChildrenOf d u)) \<longrightarrow> (\<forall>u. distinct (ChildrenOf d' u)))"

lemma grows_refl: "grows d d"
  by (simp add: grows_def)

lemma grows_trans: "grows d1 d2 \<Longrightarrow> grows d2 d3 \<Longrightarrow> grows d1 d3"
  unfolding grows_def by (meson fsubset_trans prefix_order.trans)

lemma grows_new_key: "nid |\<notin>| fmdom (dag d) \<Longrightarrow> grows d (d\<lparr>dag := fmupd nid [] (dag d)\<rparr>)"
  by (auto simp: grows_def ChildrenOf_def dag_at_def fmdom_notD)

lemma grows_ensure_key: "grows d (if nid |\<notin>| fmdom (dag d) then d\<lparr>dag := fmupd nid [] (dag d)\<rparr> else d)"
  by (simp add: grows_new_key grows_refl)

lemma addEdge_grows:
  assumes "addEdge d from to = Inr d'"
  shows "grows d d'" "to \<in> set (ChildrenOf d' from)"
proof -
  have k: "from |\<in>| fmdom (dag d)" using assms by (rule addEdge_Inr_fields)
  from addEdge_key[OF k, of to] assms
  have d': "d' = d\<lparr>dag := fmupd from
           (if to \<in> set (ChildrenOf d from) then ChildrenOf d from else ChildrenOf d from @ [to])
           (dag d)\<rparr>" by simp
  show "to \<in> set (ChildrenOf d' from)"
    by (simp add: d' ChildrenOf_def dag_at_def)
  show "grows d d'"
    unfolding grows_def using k by (auto simp: d' ChildrenOf_def dag_at_def)
qed

lemma grows_mem: "grows d d' \<Longrightarrow> x \<in> set (ChildrenOf d u) \<Longrightarrow> x \<in> set (ChildrenOf d' u)"
  by (auto simp: grows_def dest: set_mono_prefix)

lemma grows_key: "grows d d' \<Longrightarrow> x |\<in>| fmdom (dag d) \<Longrightarrow> x |\<in>| fmdom (dag d')"
  by (auto simp: grows_def)

lemma addEdges_grows:
  "addEdges d from toids = Inr d' \<Longrightarrow> grows d d' \<and> set toids \<subseteq> set (ChildrenOf d' from)"
proof (induction toids arbitrary: d)
  case Nil
  then show ?case by (simp add: grows_refl)
next
  case (Cons to toids)
  then obtain d1 where 1: "addEdge d from to = Inr d1" and 2: "addEdges d1 from toids = Inr d'"
    by (auto split: sum.splits)
  from Cons.IH[OF 2] addEdge_grows[OF 1] show ?case
    by (auto intro: grows_trans grows_mem)
qed

lemma AddNode_before_grows:
  "AddNode_before d nid before_ids = Inr d' \<Longrightarrow>
     grows d d' \<and> (\<forall>b\<in>set before_ids. nid \<in> set (ChildrenOf d' b) \<and> b |\<in>| fmdom (dag d'))"
proof (induction before_ids arbitrary: d)
  case Nil
  then show ?case by (simp add: grows_refl)
next
  case (Cons bid before_ids)
  let ?d0 = "if bid |\<notin>| fmdom (dag d) then d\<lparr>dag := fmupd bid [] (dag d)\<rparr> else d"
  from Cons.prems obtain d1 where 1: "addEdge ?d0 bid nid = Inr d1"
    and 2: "AddNode_before d1 nid before_ids = Inr d'"
    by (auto split: sum.splits)
  have g0: "grows d ?d0" by (rule grows_ensure_key)
  note g1 = addEdge_grows[OF 1]
  note ih = Cons.IH[OF 2]
  have k1: "bid |\<in>| fmdom (dag d1)" using addEdge_Inr_fields(1,5)[OF 1] by simp
  have "grows d d'" using g0 g1(1) ih by (blast intro: grows_trans)
  moreover have "nid \<in> set (ChildrenOf d' bid)" using g1(2) ih by (blast intro: grows_mem)
  moreover have "bid |\<in>| fmdom (dag d')" using k1 ih by (blast intro: grows_key)
  ultimately show ?case using ih by simp
qed

lemma AddNode_grows:
  assumes "AddNode d nid val before_ids after_ids = Inr (d', err)"
  shows "grows d d'"
    and "err = None \<Longrightarrow> nid |\<in>| fmdom (dag d') \<and> fmlookup (node_values d') nid = Some val
       \<and> \<not> validated d'
       \<and> (\<forall>b\<in>set before_ids. nid \<in> set (ChildrenOf d' b) \<and> b |\<in>| fmdom (dag d'))
       \<and> (\<forall>a\<in>set after_ids. a \<in> set (ChildrenOf d' nid))"
proof -
  show "grows d d'"
  proof (cases "nid |\<in>| fmdom (node_values d)")
    case True
    with assms show ?thesis by (simp add: AddNode_def grows_refl)
  next
    case False
    let ?e = "\<lambda>d1. if nid |\<notin>| fmdom (dag d1) then d1\<lparr>dag := fmupd nid [] (dag d1)\<rparr> else d1"
    from False assms obtain d1 d2 where 1: "AddNode_before d nid before_ids = Inr d1"
      and 2: "addEdges (?e d1) nid after_ids = Inr d2"
      and 3: "d' = d2\<lparr>node_values := fmupd nid val (node_values d2), validated := False\<rparr>"
      by (auto simp: AddNode_def split: sum.splits)
    have "grows d d2"
      using AddNode_before_grows[OF 1] grows_ensure_key[of d1 nid] addEdges_grows[OF 2]
      by (blast intro: grows_trans)
    then show ?thesis by (simp add: 3 grows_def ChildrenOf_def)
  qed
next
  assume "err = None"
  with assms have nd: "nid |\<notin>| fmdom (node_values d)"
    by (auto simp: AddNode_def)
  let ?e = "\<lambda>d1. if nid |\<notin>| fmdom (dag d1) then d1\<lparr>dag := fmupd nid [] (dag d1)\<rparr> else d1"
  from nd assms obtain d1 d2 where 1: "AddNode_before d nid before_ids = Inr d1"
    and 2: "addEdges (?e d1) nid after_ids = Inr d2"
    and 3: "d' = d2\<lparr>node_values := fmupd nid val (node_values d2), validated := False\<rparr>"
    by (auto simp: AddNode_def split: sum.splits)
  note b = AddNode_before_grows[OF 1]
  note g = grows_ensure_key[of d1 nid]
  note a = addEdges_grows[OF 2]
  have g12: "grows d1 d2" using g a by (blast intro: grows_trans)
  have k: "nid |\<in>| fmdom (dag (?e d1))" by simp
  have c: "ChildrenOf d' = ChildrenOf d2" "dag d' = dag d2" by (simp_all add: 3 ChildrenOf_def fun_eq_iff)
  have "nid |\<in>| fmdom (dag d')" using k a c by (auto intro: grows_key)
  moreover have "fmlookup (node_values d') nid = Some val" "\<not> validated d'" by (simp_all add: 3)
  moreover have "\<forall>b\<in>set before_ids. nid \<in> set (ChildrenOf d' b) \<and> b |\<in>| fmdom (dag d')"
    using b g12 c by (auto intro: grows_mem grows_key)
  moreover have "\<forall>a\<in>set after_ids. a \<in> set (ChildrenOf d' nid)"
    using a c by auto
  ultimately show "nid |\<in>| fmdom (dag d') \<and> fmlookup (node_values d') nid = Some val
       \<and> \<not> validated d'
       \<and> (\<forall>b\<in>set before_ids. nid \<in> set (ChildrenOf d' b) \<and> b |\<in>| fmdom (dag d'))
       \<and> (\<forall>a\<in>set after_ids. a \<in> set (ChildrenOf d' nid))" by blast
qed

lemma addEdges_dom: "addEdges d from toids = Inr d' \<Longrightarrow> fmdom (dag d') = fmdom (dag d)"
proof (induction toids arbitrary: d)
  case Nil
  then show ?case by simp
next
  case (Cons to toids)
  then obtain d1 where 1: "addEdge d from to = Inr d1" and 2: "addEdges d1 from toids = Inr d'"
    by (auto split: sum.splits)
  from Cons.IH[OF 2] addEdge_Inr_fields(1)[OF 1] show ?case by simp
qed

lemma AddNode_before_dom:
  "AddNode_before d nid before_ids = Inr d' \<Longrightarrow>
     fmdom (dag d') = fmdom (dag d) |\<union>| fset_of_list before_ids"
proof (induction before_ids arbitrary: d)
  case Nil
  then show ?case by simp
next
  case (Cons bid before_ids)
  let ?d0 = "if bid |\<notin>| fmdom (dag d) then d\<lparr>dag := fmupd bid [] (dag d)\<rparr> else d"
  from Cons.prems obtain d1 where 1: "addEdge ?d0 bid nid = Inr d1"
    and 2: "AddNode_before d1 nid before_ids = Inr d'"
    by (auto split: sum.splits)
  have "fmdom (dag d1) = finsert bid (fmdom (dag d))"
    using addEdge_Inr_fields(1)[OF 1] by auto
  with Cons.IH[OF 2] show ?case by auto
qed

lemma AddNode_dom:
  assumes "AddNode d nid val before_ids after_ids = Inr (d', err)"
  shows "fmdom (dag d') =
     (if err = None then finsert nid (fmdom (dag d) |\<union>| fset_of_list before_ids) else fmdom (dag d))"
proof (cases "nid |\<in>| fmdom (node_values d)")
  case True
  with assms show ?thesis by (auto simp: AddNode_def)
next
  case False
  let ?e = "\<lambda>d1. if nid |\<notin>| fmdom (dag d1) then d1\<lparr>dag := fmupd nid [] (dag d1)\<rparr> else d1"
  from False assms obtain d1 d2 where 1: "AddNode_before d nid before_ids = Inr d1"
    and 2: "addEdges (?e d1) nid after_ids = Inr d2"
    and 3: "d' = d2\<lparr>node_values := fmupd nid val (node_values d2), validated := False\<rparr>"
    and 4: "err = None"
    by (auto simp: AddNode_def split: sum.splits)
  have "fmdom (dag (?e d1)) = finsert nid (fmdom (dag d1))" by auto
  with AddNode_before_dom[OF 1] addEdges_dom[OF 2] 3 4 show ?thesis by simp
qed

lemma AddNodes_dom:
  "AddNodes d calls = Inr (d', errs) \<Longrightarrow>
     length errs = length calls \<and> fmdom' (dag d') = fmdom' (dag d) \<union> keys_declared calls errs"
proof (induction calls arbitrary: d errs)
  case Nil
  then show ?case by (auto simp: keys_declared_def)
next
  case (Cons c calls)
  obtain nid val bs as where c: "c = (nid, val, bs, as)" by (cases c) auto
  from Cons.prems c obtain d1 e1 es where 1: "AddNode d nid val bs as = Inr (d1, e1)"
    and 2: "AddNodes d1 calls = Inr (d', es)" and 3: "errs = e1 # es"
    by (auto split: sum.splits prod.splits)
  from AddNode_dom[OF 1] have "fmdom' (dag d1) =
      (if e1 = None then insert nid (fmdom' (dag d) \<union> set bs) else fmdom' (dag d))"
    by (auto simp: fmdom'_alt_def fset_of_list.rep_eq)
  with Cons.IH[OF 2] show ?case
    by (auto simp: 3 c keys_declared_def)
qed

lemma AddNodes_grows:
  "AddNodes d calls = Inr (d', errs) \<Longrightarrow> grows d d'"
proof (induction calls arbitrary: d errs)
  case Nil
  then show ?case by (simp add: grows_refl)
next
  case (Cons c calls)
  obtain nid val bs as where c: "c = (nid, val, bs, as)" by (cases c) auto
  from Cons.prems c obtain d1 e1 es where 1: "AddNode d nid val bs as = Inr (d1, e1)"
    and 2: "AddNodes d1 calls = Inr (d', es)" and 3: "errs = e1 # es"
    by (auto split: sum.splits prod.splits)
  from AddNode_grows(1)[OF 1] Cons.IH[OF 2] show ?case by (rule grows_trans)
qed

lemma AddNodes_append:
  "AddNodes d (xs @ ys) =
     (case AddNodes d xs of
        Inl p \<Rightarrow> Inl p
      | Inr (d1, e1) \<Rightarrow>
          (case AddNodes d1 ys of Inl p \<Rightarrow> Inl p | Inr (d2, e2) \<Rightarrow> Inr (d2, e1 @ e2)))"
  by (induction d xs rule: AddNodes.induct) (auto split: sum.splits prod.splits)

lemma distinct_count_one: "distinct xs \<Longrightarrow> x \<in> set xs \<Longrightarrow> count_list xs x = 1"
  by (induction xs) auto

lemma New_distinct: "distinct (ChildrenOf New u)"
  by (simp add: New_def ChildrenOf_def dag_at_def)

lemma edges_ensure_key:
  "edges (dag (if nid |\<notin>| fmdom (dag d) then d\<lparr>dag := fmupd nid [] (dag d)\<rparr> else d)) = edges (dag d)"
  by (auto simp: edges_iff dag_at_def fmdom_notD split: if_splits)

lemma addEdge_edges:
  assumes "addEdge d from to = Inr d'"
  shows "edges (dag d') = insert (from, to) (edges (dag d))"
proof -
  have k: "from |\<in>| fmdom (dag d)" using assms by (rule addEdge_Inr_fields)
  from addEdge_key[OF k, of to] assms
  have d': "d' = d\<lparr>dag := fmupd from
           (if to \<in> set (ChildrenOf d from) then ChildrenOf d from else ChildrenOf d from @ [to])
           (dag d)\<rparr>" by simp
  show ?thesis
    by (auto simp: d' edges_iff dag_at_def ChildrenOf_def split: if_splits)
qed

lemma addEdges_edges:
  "addEdges d from toids = Inr d' \<Longrightarrow> edges (dag d') = edges (dag d) \<union> {from} \<times> set toids"
proof (induction toids arbitrary: d)
  case Nil
  then show ?case by simp
next
  case (Cons to toids)
  then obtain d1 where 1: "addEdge d from to = Inr d1" and 2: "addEdges d1 from toids = Inr d'"
    by (auto split: sum.splits)
  from Cons.IH[OF 2] addEdge_edges[OF 1] show ?case by auto
qed

lemma AddNode_before_edges:
  "AddNode_before d nid before_ids = Inr d' \<Longrightarrow>
     edges (dag d') = edges (dag d) \<union> set before_ids \<times> {nid}"
proof (induction before_ids arbitrary: d)
  case Nil
  then show ?case by simp
next
  case (Cons bid before_ids)
  let ?d0 = "if bid |\<notin>| fmdom (dag d) then d\<lparr>dag := fmupd bid [] (dag d)\<rparr> else d"
  from Cons.prems obtain d1 where 1: "addEdge ?d0 bid nid = Inr d1"
    and 2: "AddNode_before d1 nid before_ids = Inr d'"
    by (auto split: sum.splits)
  have "edges (dag d1) = insert (bid, nid) (edges (dag d))"
    using addEdge_edges[OF 1] edges_ensure_key[of bid d] by simp
  with Cons.IH[OF 2] show ?case by auto
qed

lemma AddNode_edges:
  assumes "AddNode d nid val before_ids after_ids = Inr (d', err)"
  shows "edges (dag d') =
     (if err = None then edges (dag d) \<union> set before_ids \<times> {nid} \<union> {nid} \<times> set after_ids
      else edges (dag d))"
proof (cases "nid |\<in>| fmdom (node_values d)")
  case True
  with assms show ?thesis by (auto simp: AddNode_def)
next
  case False
  let ?e = "\<lambda>d1. if nid |\<notin>| fmdom (dag d1) then d1\<lparr>dag := fmupd nid [] (dag d1)\<rparr> else d1"
  from False assms obtain d1 d2 where 1: "AddNode_before d nid before_ids = Inr d1"
    and 2: "addEdges (?e d1) nid after_ids = Inr d2"
    and 3: "d' = d2\<lparr>node_values := fmupd nid val (node_values d2), validated := False\<rparr>"
    and 4: "err = None"
    by (auto simp: AddNode_def split: sum.splits)
  from AddNode_before_edges[OF 1] addEdges_edges[OF 2] edges_ensure_key[of nid d1] 3 4
  show ?thesis by simp
qed

lemma AddNodes_edges:
  "AddNodes d calls = Inr (d', errs) \<Longrightarrow>
     edges (dag d') = edges (dag d) \<union> edges_declared calls errs"
proof (induction calls arbitrary: d errs)
  case Nil
  then show ?case by (auto simp: edges_declared_def)
next
  case (Cons c calls)
  obtain nid val bs as where c: "c = (nid, val, bs, as)" by (cases c) auto
  from Cons.prems c obtain d1 e1 es where 1: "AddNode d nid val bs as = Inr (d1, e1)"
    and 2: "AddNodes d1 calls = Inr (d', es)" and 3: "errs = e1 # es"
    by (auto split: sum.splits prod.splits)
  from AddNode_edges[OF 1] Cons.IH[OF 2] show ?case
    by (auto simp: 3 c edges_declared_def)
qed

lemma edges_New: "edges (dag New) = {}"
  by (simp add: New_def edges_def)

lemma edge_once:
  assumes run: "AddNodes New calls = Inr (d, errs)"
    and e: "(u, v) \<in> edges_declared calls errs"
  shows "count_list (ChildrenOf d u) v = 1"
proof -
  have "distinct (ChildrenOf d u)"
    using AddNodes_grows[OF run] New_distinct by (auto simp: grows_def)
  moreover have "v \<in> set (ChildrenOf d u)"
    using AddNodes_edges[OF run] e by (simp add: edges_New edges_iff[symmetric] ChildrenOf_def)
  ultimately show ?thesis by (rule distinct_count_one)
qed

lemma edge_order_kept:
  assumes run: "AddNodes d0 calls = Inr (d, errs)"
    and pre: "AddNodes d0 (take k calls) = Inr (dk, ek)"
  shows "prefix (ChildrenOf dk u) (ChildrenOf d u)"
proof -
  have "AddNodes d0 (take k calls @ drop k calls) = Inr (d, errs)" using run by simp
  then obtain e2 where "AddNodes dk (drop k calls) = Inr (d, e2)"
    unfolding AddNodes_append using pre by (auto split: sum.splits prod.splits)
  from AddNodes_grows[OF this] show ?thesis by (simp add: grows_def)
qed

lemma same_declarations:
  assumes 1: "AddNodes New calls1 = Inr (d1, errs1)" and 2: "AddNodes New calls2 = Inr (d2, errs2)"
    and k: "keys_declared calls1 errs1 = keys_declared calls2 errs2"
    and e: "edges_declared calls1 errs1 = edges_declared calls2 errs2"
  shows "fmdom (dag d1) = fmdom (dag d2)" "mset (ChildrenOf d1 u) = mset (ChildrenOf d2 u)"
proof -
  have "fmdom' (dag d1) = fmdom' (dag d2)"
    using AddNodes_dom[OF 1] AddNodes_dom[OF 2] k by (simp add: New_def)
  then show "fmdom (dag d1) = fmdom (dag d2)"
    by (metis fmdom'_alt_def fset_inject)
  have "edges (dag d1) = edges (dag d2)"
    using AddNodes_edges[OF 1] AddNodes_edges[OF 2] e by (simp add: edges_New)
  then have s: "set (ChildrenOf d1 u) = set (ChildrenOf d2 u)"
    by (auto simp: ChildrenOf_def edges_iff[symmetric])
  have "distinct (ChildrenOf d1 u)"
    using AddNodes_grows[OF 1] New_distinct by (auto simp: grows_def)
  moreover have "distinct (ChildrenOf d2 u)"
    using AddNodes_grows[OF 2] New_distinct by (auto simp: grows_def)
  ultimately show "mset (ChildrenOf d1 u) = mset (ChildrenOf d2 u)"
    using s by (simp add: set_eq_iff_mset_eq_distinct)
qed

text \<open>
  \<open>extended es tos\<close>: the edge list \<open>es\<close> after \<^verbatim>\<open>addEdge\<close> to each of \<open>tos\<close> in turn.
\<close>

definition extended :: "'a list \<Rightarrow> 'a list \<Rightarrow> 'a list" where
  "extended es tos = es @ first_occurrences (filter (\<lambda>x. x \<notin> set es) tos)"

lemma extended_Nil: "extended es [] = es"
  by (simp add: extended_def)

lemma extended_Cons:
  "extended es (to # tos) = extended (if to \<in> set es then es else es @ [to]) tos"
proof -
  have "filter (\<lambda>y. y \<noteq> to) (filter (\<lambda>x. x \<notin> set es) tos)
      = filter (\<lambda>x. x \<noteq> to \<and> x \<notin> set es) tos"
    by (induction tos) auto
  then show ?thesis by (auto simp: extended_def conj_commute)
qed

lemma extended_append: "extended es (xs @ ys) = extended (extended es xs) ys"
  by (induction xs arbitrary: es) (simp_all add: extended_Nil extended_Cons)

lemma extended_empty: "extended [] tos = first_occurrences tos"
  by (simp add: extended_def)

lemma ChildrenOf_ensure_key:
  "ChildrenOf (if nid |\<notin>| fmdom (dag d) then d\<lparr>dag := fmupd nid [] (dag d)\<rparr> else d) w
     = ChildrenOf d w"
  by (auto simp: ChildrenOf_def dag_at_def fmdom_notD)

lemma addEdge_ChildrenOf:
  assumes "addEdge d from to = Inr d'"
  shows "ChildrenOf d' w = (if w = from then extended (ChildrenOf d w) [to] else ChildrenOf d w)"
proof -
  have k: "from |\<in>| fmdom (dag d)" using assms by (rule addEdge_Inr_fields)
  from addEdge_key[OF k, of to] assms
  have d': "d' = d\<lparr>dag := fmupd from
           (if to \<in> set (ChildrenOf d from) then ChildrenOf d from else ChildrenOf d from @ [to])
           (dag d)\<rparr>" by simp
  show ?thesis
  proof (cases "w = from")
    case True
    then show ?thesis
      by (simp add: d' ChildrenOf_def dag_at_def extended_Cons extended_Nil)
  next
    case False
    then show ?thesis by (simp add: d' ChildrenOf_def dag_at_def)
  qed
qed

lemma addEdges_ChildrenOf:
  "addEdges d from toids = Inr d' \<Longrightarrow>
     ChildrenOf d' w = (if w = from then extended (ChildrenOf d w) toids else ChildrenOf d w)"
proof (induction toids arbitrary: d)
  case Nil
  then show ?case by (simp add: extended_Nil)
next
  case (Cons to toids)
  then obtain d1 where 1: "addEdge d from to = Inr d1" and 2: "addEdges d1 from toids = Inr d'"
    by (auto split: sum.splits)
  show ?case
  proof (cases "w = from")
    case True
    have "extended (ChildrenOf d w) (to # toids) = extended (extended (ChildrenOf d w) [to]) toids"
      using extended_append[of "ChildrenOf d w" "[to]" toids]
      by (simp only: append_Cons append_Nil)
    with True Cons.IH[OF 2] addEdge_ChildrenOf[OF 1, of w] show ?thesis by simp
  next
    case False
    with Cons.IH[OF 2] addEdge_ChildrenOf[OF 1, of w] show ?thesis by simp
  qed
qed

lemma AddNode_before_ChildrenOf:
  "AddNode_before d nid before_ids = Inr d' \<Longrightarrow>
     ChildrenOf d' w
       = extended (ChildrenOf d w) (map (\<lambda>bid. nid) (filter (\<lambda>bid. bid = w) before_ids))"
proof (induction before_ids arbitrary: d)
  case Nil
  then show ?case by (simp add: extended_Nil)
next
  case (Cons bid before_ids)
  let ?d0 = "if bid |\<notin>| fmdom (dag d) then d\<lparr>dag := fmupd bid [] (dag d)\<rparr> else d"
  from Cons.prems obtain d1 where 1: "addEdge ?d0 bid nid = Inr d1"
    and 2: "AddNode_before d1 nid before_ids = Inr d'"
    by (auto split: sum.splits)
  have e: "ChildrenOf ?d0 w = ChildrenOf d w" by (rule ChildrenOf_ensure_key)
  have c1: "ChildrenOf d1 w = (if w = bid then extended (ChildrenOf d w) [nid] else ChildrenOf d w)"
    using addEdge_ChildrenOf[OF 1, of w] unfolding e .
  show ?case
  proof (cases "w = bid")
    case True
    have "extended (ChildrenOf d w) (nid # map (\<lambda>bid. nid) (filter (\<lambda>bid. bid = w) before_ids))
        = extended (extended (ChildrenOf d w) [nid])
            (map (\<lambda>bid. nid) (filter (\<lambda>bid. bid = w) before_ids))"
      using extended_append[of "ChildrenOf d w" "[nid]"
          "map (\<lambda>bid. nid) (filter (\<lambda>bid. bid = w) before_ids)"]
      by (simp only: append_Cons append_Nil)
    with True c1 Cons.IH[OF 2] show ?thesis by simp
  next
    case False
    with c1 Cons.IH[OF 2] show ?thesis by simp
  qed
qed

lemma AddNode_ChildrenOf:
  assumes "AddNode d nid val before_ids after_ids = Inr (d', err)"
  shows "ChildrenOf d' w =
     extended (ChildrenOf d w)
       (if err = None
        then map (\<lambda>bid. nid) (filter (\<lambda>bid. bid = w) before_ids)
             @ (if nid = w then after_ids else [])
        else [])"
proof (cases "nid |\<in>| fmdom (node_values d)")
  case True
  with assms show ?thesis by (auto simp: AddNode_def extended_Nil)
next
  case False
  let ?e = "\<lambda>d1. if nid |\<notin>| fmdom (dag d1) then d1\<lparr>dag := fmupd nid [] (dag d1)\<rparr> else d1"
  from False assms obtain d1 d2 where 1: "AddNode_before d nid before_ids = Inr d1"
    and 2: "addEdges (?e d1) nid after_ids = Inr d2"
    and 3: "d' = d2\<lparr>node_values := fmupd nid val (node_values d2), validated := False\<rparr>"
    and 4: "err = None"
    by (auto simp: AddNode_def split: sum.splits)
  have c: "ChildrenOf d' w = ChildrenOf d2 w" by (simp add: 3 ChildrenOf_def)
  have e: "ChildrenOf (?e d1) w = ChildrenOf d1 w" by (rule ChildrenOf_ensure_key)
  have "ChildrenOf d2 w = (if w = nid then extended (ChildrenOf d1 w) after_ids else ChildrenOf d1 w)"
    using addEdges_ChildrenOf[OF 2, of w] unfolding e .
  with AddNode_before_ChildrenOf[OF 1, of w] c 4 show ?thesis
    by (auto simp: extended_append extended_Nil)
qed

lemma AddNodes_ChildrenOf:
  "AddNodes d calls = Inr (d', errs) \<Longrightarrow>
     ChildrenOf d' w = extended (ChildrenOf d w) (targets_declared calls errs w)"
proof (induction calls arbitrary: d errs)
  case Nil
  then show ?case by (auto simp: targets_declared_def extended_Nil)
next
  case (Cons c calls)
  obtain nid val bs as where c: "c = (nid, val, bs, as)" by (cases c) auto
  from Cons.prems c obtain d1 e1 es where 1: "AddNode d nid val bs as = Inr (d1, e1)"
    and 2: "AddNodes d1 calls = Inr (d', es)" and 3: "errs = e1 # es"
    by (auto split: sum.splits prod.splits)
  have t: "targets_declared (c # calls) errs w
      = (if e1 = None then map (\<lambda>bid. nid) (filter (\<lambda>bid. bid = w) bs) @ (if nid = w then as else [])
         else []) @ targets_declared calls es w"
    by (simp add: targets_declared_def 3 c)
  from AddNode_ChildrenOf[OF 1, of w] Cons.IH[OF 2] show ?case
    unfolding t extended_append by simp
qed

lemma edge_list_exact:
  assumes "AddNodes New calls = Inr (d, errs)"
  shows "ChildrenOf d w = first_occurrences (targets_declared calls errs w)"
  using AddNodes_ChildrenOf[OF assms, of w]
  by (simp add: New_def ChildrenOf_def dag_at_def extended_empty)

lemma targets_declared_edges:
  "v \<in> set (targets_declared calls errs u) \<longleftrightarrow> (u, v) \<in> edges_declared calls errs"
proof -
  let ?f = "\<lambda>((nid, val :: 'a, before_ids, after_ids), err :: error option).
                    if err = None
                    then map (\<lambda>bid. nid) (filter (\<lambda>bid. bid = u) before_ids)
                         @ (if nid = u then after_ids else [])
                    else []"
  let ?g = "\<lambda>((nid, val :: 'a, before_ids, after_ids), err :: error option).
                          if err = None
                          then map (\<lambda>bid. (bid, nid)) before_ids @ map (\<lambda>to. (nid, to)) after_ids
                          else []"
  have pt: "v \<in> set (?f z) \<longleftrightarrow> (u, v) \<in> set (?g z)" for z
    by (cases z) auto
  have "v \<in> set (concat (map ?f zs)) \<longleftrightarrow> (u, v) \<in> set (concat (map ?g zs))" for zs
  proof (induction zs)
    case Nil
    show ?case by simp
  next
    case (Cons z zs)
    then show ?case by (simp only: list.map concat.simps set_append Un_iff pt)
  qed
  then show ?thesis
    unfolding targets_declared_def edges_declared_def .
qed

text \<open>
  C2 (counterexample). An id mentioned only as a successor gets no entry in the adjacency
  map: after \<open>AddNode\<close> of \<open>A\<close> with the successor \<open>B\<close> on a new structure, \<open>B\<close> is no key
  and \<open>IDs\<close> is \<open>[A]\<close>. \<open>addEdge\<close> writes the edge list of \<open>from\<close> only.
\<close>

theorem successor_hint_makes_no_key:
  "AddNode (New :: unit DAG) ''A'' () [] [''B'']
     = Inr (\<lparr>dag = fmupd ''A'' [''B''] fmempty, node_values = fmupd ''A'' () fmempty,
             cycles = fmempty, validated = False\<rparr>, None)
   \<and> ''B'' |\<notin>| fmdom (dag \<lparr>dag = fmupd ''A'' [''B''] fmempty, node_values = fmupd ''A'' () fmempty,
             cycles = fmempty, validated = False\<rparr>)
   \<and> IDs \<lparr>dag = fmupd ''A'' [''B''] fmempty, node_values = fmupd ''A'' () fmempty,
             cycles = fmempty, validated = False\<rparr> = [''A'']"
  by code_simp

lemma scenario_A_succ_B:
  "AddNodes New [(''A'', val, [], [''B''])]
     = Inr (\<lparr>dag = fmupd ''A'' [''B''] fmempty, node_values = fmupd ''A'' val fmempty,
             cycles = fmempty, validated = False\<rparr>, [None])
   \<and> ChildrenOf \<lparr>dag = fmupd ''A'' [''B''] fmempty, node_values = fmupd ''A'' val fmempty,
             cycles = fmempty, validated = False\<rparr> ''A'' = [''B'']
   \<and> IDs \<lparr>dag = fmupd ''A'' [''B''] fmempty, node_values = fmupd ''A'' val fmempty,
             cycles = fmempty, validated = False\<rparr> = [''A'']
   \<and> Order \<lparr>dag = fmupd ''A'' [''B''] fmempty, node_values = fmupd ''A'' val fmempty,
             cycles = fmempty, validated = False\<rparr> = Some [''B'', ''A'']
   \<and> Node \<lparr>dag = fmupd ''A'' [''B''] fmempty, node_values = fmupd ''A'' val fmempty,
             cycles = fmempty, validated = False\<rparr> ''B'' = Inl ErrNodeNotFound"
proof (intro conjI)
  show "AddNodes New [(''A'', val, [], [''B''])]
     = Inr (\<lparr>dag = fmupd ''A'' [''B''] fmempty, node_values = fmupd ''A'' val fmempty,
             cycles = fmempty, validated = False\<rparr>, [None])"
    by (simp add: AddNode_def New_def addEdge_def)
  show "ChildrenOf \<lparr>dag = fmupd ''A'' [''B''] fmempty, node_values = fmupd ''A'' val fmempty,
             cycles = fmempty, validated = False\<rparr> ''A'' = [''B'']"
    by (simp add: ChildrenOf_def dag_at_def)
  show "IDs \<lparr>dag = fmupd ''A'' [''B''] fmempty, node_values = fmupd ''A'' val fmempty,
             cycles = fmempty, validated = False\<rparr> = [''A'']"
    by (simp add: IDs_def IDs_of_def sorted_list_of_fset.rep_eq)
  show "Order \<lparr>dag = fmupd ''A'' [''B''] fmempty, node_values = fmupd ''A'' val fmempty,
             cycles = fmempty, validated = False\<rparr> = Some [''B'', ''A'']"
  proof -
    let ?dg = "fmupd ''A'' [''B''] fmempty :: (ID, ID list) fmap"
    have wB: "walkFrom ?dg Order_do ''B'' s = Some (Order_do ''B'' s)" for s
      by (subst walkFrom.simps) (simp add: dag_at_def sortedIds_def)
    have wA: "walkFrom ?dg Order_do ''A'' s = Some (Order_do ''A'' (Order_do ''B'' s))" for s
      by (subst walkFrom.simps) (simp add: wB dag_at_def sortedIds_def)
    show ?thesis
      by (simp add: Order_def IDs_def IDs_of_def sorted_list_of_fset.rep_eq wA Order_do_def)
  qed
  show "Node \<lparr>dag = fmupd ''A'' [''B''] fmempty, node_values = fmupd ''A'' val fmempty,
             cycles = fmempty, validated = False\<rparr> ''B'' = Inl ErrNodeNotFound"
    by (simp add: Node_def)
qed

text \<open>
  C2 (amended). After any sequence of \<open>AddNode\<close> calls on a new structure, the keys of the
  adjacency map, which are the ids \<open>IDs\<close> returns, are exactly the ids the successful calls
  inserted and the predecessor hints of those calls, and the edges are exactly the edges
  those calls declared by their predecessor and successor hints. A successor hint adds an
  edge and no key: inserting \<open>A\<close> with the successor \<open>B\<close>, and nothing else, puts \<open>B\<close> in
  \<open>ChildrenOf A\<close> and in \<open>Order\<close>, not in \<open>IDs\<close>, and \<open>Node B\<close> fails with \<open>ErrNodeNotFound\<close>.
\<close>

theorem adjacency_keys_of_calls:
  assumes "AddNodes New calls = Inr (d, errs)"
  shows "fmdom' (dag d) = keys_declared calls errs
     \<and> set (IDs d) = keys_declared calls errs
     \<and> edges (dag d) = edges_declared calls errs
     \<and> AddNodes New [(''A'', val, [], [''B''])]
         = Inr (\<lparr>dag = fmupd ''A'' [''B''] fmempty, node_values = fmupd ''A'' val fmempty,
                 cycles = fmempty, validated = False\<rparr>, [None])
     \<and> ChildrenOf \<lparr>dag = fmupd ''A'' [''B''] fmempty, node_values = fmupd ''A'' val fmempty,
             cycles = fmempty, validated = False\<rparr> ''A'' = [''B'']
     \<and> IDs \<lparr>dag = fmupd ''A'' [''B''] fmempty, node_values = fmupd ''A'' val fmempty,
             cycles = fmempty, validated = False\<rparr> = [''A'']
     \<and> Order \<lparr>dag = fmupd ''A'' [''B''] fmempty, node_values = fmupd ''A'' val fmempty,
             cycles = fmempty, validated = False\<rparr> = Some [''B'', ''A'']
     \<and> Node \<lparr>dag = fmupd ''A'' [''B''] fmempty, node_values = fmupd ''A'' val fmempty,
             cycles = fmempty, validated = False\<rparr> ''B'' = Inl ErrNodeNotFound"
proof -
  have k: "fmdom' (dag d) = keys_declared calls errs"
    using AddNodes_dom[OF assms] by (simp add: New_def)
  have i: "set (IDs d) = keys_declared calls errs"
    using k by (simp add: IDs_def IDs_of_def fmdom'_alt_def)
  have e: "edges (dag d) = edges_declared calls errs"
    using AddNodes_edges[OF assms] by (simp add: edges_New)
  show ?thesis using k i e scenario_A_succ_B[of val] by blast
qed

theorem adjacency_keys_of_calls_witness:
  "AddNodes (New :: unit DAG) [(''B'', (), [''A''], [''C''])]
     = Inr (\<lparr>dag = fmupd ''B'' [''C''] (fmupd ''A'' [''B''] fmempty),
             node_values = fmupd ''B'' () fmempty, cycles = fmempty, validated = False\<rparr>, [None])
   \<and> fmdom' (dag \<lparr>dag = fmupd ''B'' [''C''] (fmupd ''A'' [''B''] fmempty),
             node_values = fmupd ''B'' () fmempty, cycles = fmempty, validated = False\<rparr>)
       = {''A'', ''B''}
   \<and> set (IDs \<lparr>dag = fmupd ''B'' [''C''] (fmupd ''A'' [''B''] fmempty),
             node_values = fmupd ''B'' () fmempty, cycles = fmempty, validated = False\<rparr>)
       = {''A'', ''B''}
   \<and> edges (dag \<lparr>dag = fmupd ''B'' [''C''] (fmupd ''A'' [''B''] fmempty),
             node_values = fmupd ''B'' () fmempty, cycles = fmempty, validated = False\<rparr>)
       = {(''A'', ''B''), (''B'', ''C'')}"
proof -
  let ?d = "\<lparr>dag = fmupd ''B'' [''C''] (fmupd ''A'' [''B''] fmempty),
             node_values = fmupd ''B'' () fmempty, cycles = fmempty, validated = False\<rparr> :: unit DAG"
  have run: "AddNodes (New :: unit DAG) [(''B'', (), [''A''], [''C''])] = Inr (?d, [None])"
    by code_simp
  note t = adjacency_keys_of_calls[OF run, where val = "()"]
  from t have k: "fmdom' (dag ?d) = keys_declared [(''B'', (), [''A''], [''C''])] [None]"
    and i: "set (IDs ?d) = keys_declared [(''B'', (), [''A''], [''C''])] [None]"
    and e: "edges (dag ?d) = edges_declared [(''B'', (), [''A''], [''C''])] [None]"
    by blast+
  have kd: "keys_declared [(''B'', (), [''A''], [''C''])] [None] = {''A'', ''B''}"
    by (auto simp: keys_declared_def)
  have ed: "edges_declared [(''B'', (), [''A''], [''C''])] [None] = {(''A'', ''B''), (''B'', ''C'')}"
    by (auto simp: edges_declared_def)
  show ?thesis using run k i e kd ed by (simp del: fmdom'_fmupd)
qed

text \<open>
  C4. After any sequence of \<open>AddNode\<close> calls on a new structure, an edge \<open>u \<rightarrow> v\<close> that the
  successful calls declared, by a predecessor or a successor hint and however often, occurs
  exactly once in \<open>ChildrenOf u\<close>; the edge list a node had after any initial part of the
  calls is an initial segment of its final edge list; and the edge list of every node is
  the sequence of the targets declared for it, across the calls and within each call in
  the order of the hints, with every target kept at its first occurrence only. So the
  distinct edges of a node stand in the order of their first declaration.
\<close>

theorem edge_declared_once:
  assumes "AddNodes New calls = Inr (d, errs)"
    and "(u, v) \<in> edges_declared calls errs"
  shows "count_list (ChildrenOf d u) v = 1
     \<and> (\<forall>k dk ek w. AddNodes New (take k calls) = Inr (dk, ek)
            \<longrightarrow> prefix (ChildrenOf dk w) (ChildrenOf d w))
     \<and> (\<forall>w. ChildrenOf d w = first_occurrences (targets_declared calls errs w))
     \<and> (\<forall>w x. x \<in> set (targets_declared calls errs w) \<longleftrightarrow> (w, x) \<in> edges_declared calls errs)"
  using edge_once[OF assms] edge_order_kept[OF assms(1)] edge_list_exact[OF assms(1)]
    targets_declared_edges[of _ calls errs]
  by blast

theorem edge_declared_once_witness:
  "AddNodes (New :: unit DAG)
      [(''B'', (), [''A''], []), (''A'', (), [], [''D'', ''C'', ''B'', ''C''])]
     = Inr (\<lparr>dag = fmupd ''A'' [''B'', ''D'', ''C''] (fmupd ''B'' [] fmempty),
             node_values = fmupd ''A'' () (fmupd ''B'' () fmempty),
             cycles = fmempty, validated = False\<rparr>, [None, None])
   \<and> (''A'', ''B'') \<in> edges_declared [(''B'', (), [''A''], [])] [None]
   \<and> (''A'', ''B'') \<in> edges_declared [(''A'', (), [], [''D'', ''C'', ''B'', ''C''])] [None]
   \<and> (''A'', ''B'') \<in> edges_declared
         [(''B'', (), [''A''], []), (''A'', (), [], [''D'', ''C'', ''B'', ''C''])] [None, None]
   \<and> count_list (ChildrenOf \<lparr>dag = fmupd ''A'' [''B'', ''D'', ''C''] (fmupd ''B'' [] fmempty),
             node_values = fmupd ''A'' () (fmupd ''B'' () fmempty),
             cycles = fmempty, validated = False\<rparr> ''A'') ''B'' = 1
   \<and> AddNodes (New :: unit DAG)
        (take 1 [(''B'', (), [''A''], []), (''A'', (), [], [''D'', ''C'', ''B'', ''C''])])
     = Inr (\<lparr>dag = fmupd ''B'' [] (fmupd ''A'' [''B''] fmempty),
             node_values = fmupd ''B'' () fmempty, cycles = fmempty, validated = False\<rparr>, [None])
   \<and> prefix (ChildrenOf \<lparr>dag = fmupd ''B'' [] (fmupd ''A'' [''B''] fmempty),
             node_values = fmupd ''B'' () fmempty, cycles = fmempty, validated = False\<rparr> ''A'')
         (ChildrenOf \<lparr>dag = fmupd ''A'' [''B'', ''D'', ''C''] (fmupd ''B'' [] fmempty),
             node_values = fmupd ''A'' () (fmupd ''B'' () fmempty),
             cycles = fmempty, validated = False\<rparr> ''A'')
   \<and> targets_declared
         [(''B'', (), [''A''], []), (''A'', (), [], [''D'', ''C'', ''B'', ''C''])] [None, None] ''A''
       = [''B'', ''D'', ''C'', ''B'', ''C'']
   \<and> first_occurrences [''B'', ''D'', ''C'', ''B'', ''C''] = [''B'', ''D'', ''C'']
   \<and> ChildrenOf \<lparr>dag = fmupd ''A'' [''B'', ''D'', ''C''] (fmupd ''B'' [] fmempty),
             node_values = fmupd ''A'' () (fmupd ''B'' () fmempty),
             cycles = fmempty, validated = False\<rparr> ''A'' = [''B'', ''D'', ''C'']"
proof -
  let ?calls = "[(''B'', (), [''A''], []), (''A'', (), [], [''D'', ''C'', ''B'', ''C''])]
      :: unit call list"
  let ?d = "\<lparr>dag = fmupd ''A'' [''B'', ''D'', ''C''] (fmupd ''B'' [] fmempty),
             node_values = fmupd ''A'' () (fmupd ''B'' () fmempty),
             cycles = fmempty, validated = False\<rparr> :: unit DAG"
  let ?d1 = "\<lparr>dag = fmupd ''B'' [] (fmupd ''A'' [''B''] fmempty),
             node_values = fmupd ''B'' () fmempty, cycles = fmempty, validated = False\<rparr> :: unit DAG"
  have run: "AddNodes (New :: unit DAG) ?calls = Inr (?d, [None, None])"
    by code_simp
  have run1: "AddNodes (New :: unit DAG) (take 1 ?calls) = Inr (?d1, [None])"
    by code_simp
  have dc: "(''A'', ''B'') \<in> edges_declared [(''B'', (), [''A''], [])] [None]"
    "(''A'', ''B'') \<in> edges_declared [(''A'', (), [], [''D'', ''C'', ''B'', ''C''])] [None]"
    "(''A'', ''B'') \<in> edges_declared ?calls [None, None]"
    by (simp_all add: edges_declared_def)
  have td: "targets_declared ?calls [None, None] ''A'' = [''B'', ''D'', ''C'', ''B'', ''C'']"
    by (simp add: targets_declared_def)
  have fo: "first_occurrences [''B'', ''D'', ''C'', ''B'', ''C''] = [''B'', ''D'', ''C'']"
    by simp
  note t = edge_declared_once[OF run dc(3)]
  from t run1 have 1: "count_list (ChildrenOf ?d ''A'') ''B'' = 1"
    "prefix (ChildrenOf ?d1 ''A'') (ChildrenOf ?d ''A'')" by blast+
  from t have "ChildrenOf ?d ''A'' = first_occurrences (targets_declared ?calls [None, None] ''A'')"
    by blast
  then have 2: "ChildrenOf ?d ''A'' = [''B'', ''D'', ''C'']"
    unfolding td fo .
  show ?thesis using run run1 dc 1 td fo 2 by simp
qed

section \<open>Properties of the validator\<close>

lemma range_found_none:
  assumes "\<And>x c. x \<in> set xs \<Longrightarrow> body x c = (c, False, [])"
  shows "range_found body xs c = (c, False, [])"
  using assms by (induction xs arbitrary: c) auto

lemma hasCycle_acyclic:
  "acyclic (edges dg) \<Longrightarrow> branch \<noteq> [] \<Longrightarrow> (\<forall>x\<in>set branch. (x, last branch) \<in> (edges dg)\<^sup>*)
    \<Longrightarrow> set children \<subseteq> set (dag_at dg (last branch))
    \<Longrightarrow> hasCycle dg cyc branch children reason = (cyc, False, [])"
proof (induction dg cyc branch children reason rule: hasCycle.induct)
  case (1 dg cyc branch children reason)
  have none: "find (contains children) branch = None"
  proof (rule ccontr)
    assume "find (contains children) branch \<noteq> None"
    then obtain x where "x \<in> set branch" "x \<in> set children"
      by (auto simp: find_contains_None)
    with "1.prems" have "(x, last branch) \<in> (edges dg)\<^sup>*" "(last branch, x) \<in> edges dg"
      by (auto simp: edges_iff)
    then have "(x, x) \<in> (edges dg)\<^sup>+" by (rule rtrancl_into_trancl1)
    with "1.prems"(1) show False by (simp add: acyclic_def)
  qed
  have "range_found
            (\<lambda>tid c. hasCycle dg c (branch @ [tid]) (dag_at dg tid)
                 (reason @ '' '' @ tid @ '' ->''))
            (sortedIds children) cyc = (cyc, False, [])"
  proof (rule range_found_none)
    fix tid c
    assume t: "tid \<in> set (sortedIds children)"
    then have tc: "tid \<in> set children" by (simp add: sortedIds_def)
    with "1.prems" have e: "(last branch, tid) \<in> edges dg" by (auto simp: edges_iff)
    have "\<forall>x\<in>set (branch @ [tid]). (x, last (branch @ [tid])) \<in> (edges dg)\<^sup>*"
      using "1.prems"(3) e by (auto intro: rtrancl_into_rtrancl)
    then show "hasCycle dg c (branch @ [tid]) (dag_at dg tid) (reason @ '' '' @ tid @ '' ->'')
        = (c, False, [])"
      using "1.IH"[OF none t, of c] "1.prems"(1) by simp
  qed
  with none show ?case by simp
qed

lemma validateNode_fields:
  assumes "validateNode d nid children = (d', reason, err)"
  shows "dag d' = dag d" "node_values d' = node_values d" "validated d' = validated d"
  using assms by (auto simp: validateNode_def split: prod.splits if_splits)

lemma Validate_range_fields:
  "Validate_range d ids = (d', reason, err) \<Longrightarrow>
     dag d' = dag d \<and> node_values d' = node_values d \<and> validated d' = validated d"
proof (induction ids arbitrary: d)
  case Nil
  then show ?case by simp
next
  case (Cons nid ids)
  obtain d1 r1 e1 where v: "validateNode d nid (ChildrenOf d nid) = (d1, r1, e1)"
    by (cases "validateNode d nid (ChildrenOf d nid)") auto
  note f = validateNode_fields[OF v]
  show ?case
  proof (cases "e1 = None")
    case True
    with Cons.prems v have "Validate_range d1 ids = (d', reason, err)" by simp
    from Cons.IH[OF this] f show ?thesis by simp
  next
    case False
    with Cons.prems v f show ?thesis by auto
  qed
qed

lemma Validate_fields:
  assumes "Validate d = (d', reason, err)"
  shows "dag d' = dag d" "node_values d' = node_values d" "validated d'"
  using Validate_range_fields[of "d\<lparr>cycles := fmempty, validated := True\<rparr>" _ d' reason err] assms
  by (auto simp: Validate_def Let_def)

lemma validateNode_acyclic:
  assumes "acyclic (edges (dag d))"
  shows "validateNode d nid (ChildrenOf d nid) = (d, [], None)"
proof -
  have "hasCycle (dag d) (cycles d) [nid] (ChildrenOf d nid) (nid @ '' ->'') = (cycles d, False, [])"
    using assms by (intro hasCycle_acyclic) (auto simp: ChildrenOf_def)
  then show ?thesis by (simp add: validateNode_def)
qed

lemma Validate_range_acyclic:
  assumes "acyclic (edges (dag d))"
  shows "Validate_range d ids = (d, [], None)"
  using assms by (induction ids) (auto simp: validateNode_acyclic)

text \<open>
  C8. On a structure whose adjacency map has no cycle, \<open>Validate\<close> returns (it is a total
  function: the search of \<open>hasCycle\<close> terminates on every input) the empty reason and no
  error, and leaves the structure with the validated flag set and the cycle set empty;
  nothing else changes.
\<close>

theorem Validate_acyclic:
  assumes "acyclic (edges (dag d))"
  shows "Validate d = (d\<lparr>cycles := fmempty, validated := True\<rparr>, [], None)"
  using assms by (simp add: Validate_def Let_def Validate_range_acyclic)

theorem Validate_acyclic_witness:
  "acyclic (edges (dag \<lparr>dag = fmupd ''B'' [''C''] (fmupd ''A'' [''B'', ''C''] fmempty),
        node_values = fmempty :: (ID, unit) fmap,
        cycles = fmupd ''X'' True fmempty, validated = False\<rparr>))
   \<and> Validate \<lparr>dag = fmupd ''B'' [''C''] (fmupd ''A'' [''B'', ''C''] fmempty),
        node_values = fmempty :: (ID, unit) fmap,
        cycles = fmupd ''X'' True fmempty, validated = False\<rparr>
      = (\<lparr>dag = fmupd ''B'' [''C''] (fmupd ''A'' [''B'', ''C''] fmempty),
          node_values = fmempty :: (ID, unit) fmap,
          cycles = fmempty, validated = True\<rparr>, [], None)"
proof -
  let ?d = "\<lparr>dag = fmupd ''B'' [''C''] (fmupd ''A'' [''B'', ''C''] fmempty),
        node_values = fmempty :: (ID, unit) fmap,
        cycles = fmupd ''X'' True fmempty, validated = False\<rparr>"
  have ac: "acyclic (edges (dag ?d))" by code_simp
  from Validate_acyclic[OF ac] ac show ?thesis by simp
qed

lemma Validate_cache_irrelevant: "Validate (d\<lparr>cycles := c, validated := b\<rparr>) = Validate d"
  by (simp add: Validate_def Let_def IDs_def)

text \<open>
  C9. Whatever the structure, and whether or not it reports a cycle, \<open>Validate\<close> leaves
  the validated flag set and the adjacency and value maps as they were; what it returns
  does not depend on the cycle set and the flag it found, since it starts from the empty
  cycle set. A \<open>HasCycle\<close> call on the structure \<open>Validate\<close> left does not validate again: it
  leaves the structure as it is and answers from the stored cycle set. A successful
  \<open>AddNode\<close> on that structure clears the flag, and the \<open>HasCycle\<close> call after it leaves
  the structure a new validation leaves.
\<close>

theorem Validate_sets_flag:
  "validated (fst (Validate d)) \<and> dag (fst (Validate d)) = dag d
   \<and> node_values (fst (Validate d)) = node_values d
   \<and> Validate (d\<lparr>cycles := c, validated := b\<rparr>) = Validate d
   \<and> HasCycle (fst (Validate d)) nid = (fst (Validate d), cycles_at (fst (Validate d)) nid)
   \<and> (AddNode (fst (Validate d)) x val before_ids after_ids = Inr (d', None) \<longrightarrow>
        \<not> validated d' \<and> fst (HasCycle d' nid) = fst (Validate d'))"
proof -
  obtain d1 r e where v: "Validate d = (d1, r, e)" by (cases "Validate d") auto
  note f = Validate_fields[OF v]
  have "\<not> validated d' \<and> fst (HasCycle d' nid) = fst (Validate d')"
    if a: "AddNode d1 x val before_ids after_ids = Inr (d', None)"
  proof -
    from a have "\<not> validated d'"
      by (auto simp: AddNode_def split: sum.splits if_splits)
    then show ?thesis by (auto simp: HasCycle_def split: prod.splits)
  qed
  then have 6: "AddNode (fst (Validate d)) x val before_ids after_ids = Inr (d', None) \<longrightarrow>
        \<not> validated d' \<and> fst (HasCycle d' nid) = fst (Validate d')"
    using v by simp
  have 5: "HasCycle (fst (Validate d)) nid = (fst (Validate d), cycles_at (fst (Validate d)) nid)"
    using v f by (simp add: HasCycle_def)
  show ?thesis using v f 5 6 by (simp add: Validate_cache_irrelevant)
qed

theorem Validate_sets_flag_witness:
  "Validate \<lparr>dag = fmupd ''B'' [''A''] (fmupd ''A'' [''B''] fmempty),
        node_values = fmupd ''B'' () (fmupd ''A'' () fmempty),
        cycles = fmempty, validated = False\<rparr>
     = (\<lparr>dag = fmupd ''B'' [''A''] (fmupd ''A'' [''B''] fmempty),
         node_values = fmupd ''B'' () (fmupd ''A'' () fmempty),
         cycles = fmupd ''A'' True fmempty, validated = True\<rparr>,
        ''A -> B -> A'', Some (ErrCycleDetected ''A''))
   \<and> HasCycle \<lparr>dag = fmupd ''B'' [''A''] (fmupd ''A'' [''B''] fmempty),
         node_values = fmupd ''B'' () (fmupd ''A'' () fmempty),
         cycles = fmupd ''A'' True fmempty, validated = True\<rparr> ''A''
     = (\<lparr>dag = fmupd ''B'' [''A''] (fmupd ''A'' [''B''] fmempty),
         node_values = fmupd ''B'' () (fmupd ''A'' () fmempty),
         cycles = fmupd ''A'' True fmempty, validated = True\<rparr>, True)
   \<and> AddNode \<lparr>dag = fmupd ''B'' [''A''] (fmupd ''A'' [''B''] fmempty),
         node_values = fmupd ''B'' () (fmupd ''A'' () fmempty),
         cycles = fmupd ''A'' True fmempty, validated = True\<rparr> ''C'' () [] []
     = Inr (\<lparr>dag = fmupd ''C'' [] (fmupd ''B'' [''A''] (fmupd ''A'' [''B''] fmempty)),
             node_values = fmupd ''C'' () (fmupd ''B'' () (fmupd ''A'' () fmempty)),
             cycles = fmupd ''A'' True fmempty, validated = False\<rparr>, None)
   \<and> \<not> validated \<lparr>dag = fmupd ''C'' [] (fmupd ''B'' [''A''] (fmupd ''A'' [''B''] fmempty)),
             node_values = fmupd ''C'' () (fmupd ''B'' () (fmupd ''A'' () fmempty)),
             cycles = fmupd ''A'' True fmempty, validated = False\<rparr>
   \<and> fst (HasCycle \<lparr>dag = fmupd ''C'' [] (fmupd ''B'' [''A''] (fmupd ''A'' [''B''] fmempty)),
             node_values = fmupd ''C'' () (fmupd ''B'' () (fmupd ''A'' () fmempty)),
             cycles = fmupd ''A'' True fmempty, validated = False\<rparr> ''A'')
     = \<lparr>dag = fmupd ''C'' [] (fmupd ''B'' [''A''] (fmupd ''A'' [''B''] fmempty)),
        node_values = fmupd ''C'' () (fmupd ''B'' () (fmupd ''A'' () fmempty)),
        cycles = fmupd ''A'' True fmempty, validated = True\<rparr>"
proof -
  let ?d = "\<lparr>dag = fmupd ''B'' [''A''] (fmupd ''A'' [''B''] fmempty),
        node_values = fmupd ''B'' () (fmupd ''A'' () fmempty),
        cycles = fmempty, validated = False\<rparr>"
  let ?d1 = "\<lparr>dag = fmupd ''B'' [''A''] (fmupd ''A'' [''B''] fmempty),
         node_values = fmupd ''B'' () (fmupd ''A'' () fmempty),
         cycles = fmupd ''A'' True fmempty, validated = True\<rparr>"
  let ?d2 = "\<lparr>dag = fmupd ''C'' [] (fmupd ''B'' [''A''] (fmupd ''A'' [''B''] fmempty)),
             node_values = fmupd ''C'' () (fmupd ''B'' () (fmupd ''A'' () fmempty)),
             cycles = fmupd ''A'' True fmempty, validated = False\<rparr>"
  let ?d3 = "\<lparr>dag = fmupd ''C'' [] (fmupd ''B'' [''A''] (fmupd ''A'' [''B''] fmempty)),
        node_values = fmupd ''C'' () (fmupd ''B'' () (fmupd ''A'' () fmempty)),
        cycles = fmupd ''A'' True fmempty, validated = True\<rparr>"
  have v: "Validate ?d = (?d1, ''A -> B -> A'', Some (ErrCycleDetected ''A''))" by code_simp
  have c: "cycles_at ?d1 ''A'' = True" by code_simp
  have a: "AddNode ?d1 ''C'' () [] [] = Inr (?d2, None)" by code_simp
  have v2: "fst (Validate ?d2) = ?d3" by code_simp
  note t = Validate_sets_flag[of ?d _ _ "''A''" "''C''" "()" "[]" "[]" ?d2]
  from t v c have 1: "HasCycle ?d1 ''A'' = (?d1, True)" by simp
  from t v a have 2: "\<not> validated ?d2" "fst (HasCycle ?d2 ''A'') = fst (Validate ?d2)"
    by simp_all
  show ?thesis using v 1 a 2 v2 by simp
qed

text \<open>
  C7. \<open>HasCycle\<close> returns a boolean on every structure. With the validated flag set it
  leaves the structure alone and answers from the cycle set, false for an id that is not
  in it. With the flag clear it runs \<open>Validate\<close>, answers false when that reports no
  error, and from the new cycle set otherwise. A successful \<open>AddNode\<close> leaves the flag
  clear, so a \<open>HasCycle\<close> call after it validates the structure as the insertion left it:
  its result is the same whatever the cycle set held before.
\<close>

theorem HasCycle_lazy_validation:
  "(validated d \<longrightarrow> HasCycle d nid = (d, cycles_at d nid))
   \<and> (\<not> validated d \<longrightarrow>
        HasCycle d nid =
          (fst (Validate d),
           case snd (snd (Validate d)) of
             None \<Rightarrow> False
           | Some err \<Rightarrow> cycles_at (fst (Validate d)) nid))
   \<and> (AddNode d x val before_ids after_ids = Inr (d', None) \<longrightarrow>
        \<not> validated d'
        \<and> (\<forall>c. HasCycle (d'\<lparr>cycles := c\<rparr>) nid = HasCycle d' nid)
        \<and> snd (HasCycle d' nid) =
            (case snd (snd (Validate d')) of
               None \<Rightarrow> False
             | Some err \<Rightarrow> cycles_at (fst (Validate d')) nid))"
proof (intro conjI impI)
  show "HasCycle d nid = (d, cycles_at d nid)" if "validated d"
    using that by (simp add: HasCycle_def)
  show "HasCycle d nid =
          (fst (Validate d),
           case snd (snd (Validate d)) of
             None \<Rightarrow> False
           | Some err \<Rightarrow> cycles_at (fst (Validate d)) nid)" if "\<not> validated d"
    using that by (auto simp: HasCycle_def split: prod.splits option.splits)
next
  assume a: "AddNode d x val before_ids after_ids = Inr (d', None)"
  from AddNode_grows(2)[OF a] show nv: "\<not> validated d'" by simp
  have "Validate (d'\<lparr>cycles := c\<rparr>) = Validate d'" for c
    using Validate_cache_irrelevant[where d=d' and c=c and b="validated d'"] by simp
  then show "\<forall>c. HasCycle (d'\<lparr>cycles := c\<rparr>) nid = HasCycle d' nid"
    using nv by (simp add: HasCycle_def)
  show "snd (HasCycle d' nid) =
            (case snd (snd (Validate d')) of
               None \<Rightarrow> False
             | Some err \<Rightarrow> cycles_at (fst (Validate d')) nid)"
    using nv by (auto simp: HasCycle_def split: prod.splits option.splits)
qed

theorem HasCycle_lazy_validation_witness:
  "validated \<lparr>dag = fmupd ''B'' [] (fmupd ''A'' [''B''] fmempty),
        node_values = fmupd ''B'' () (fmupd ''A'' () fmempty),
        cycles = fmempty, validated = True\<rparr>
   \<and> HasCycle \<lparr>dag = fmupd ''B'' [] (fmupd ''A'' [''B''] fmempty),
        node_values = fmupd ''B'' () (fmupd ''A'' () fmempty),
        cycles = fmempty, validated = True\<rparr> ''A''
      = (\<lparr>dag = fmupd ''B'' [] (fmupd ''A'' [''B''] fmempty),
          node_values = fmupd ''B'' () (fmupd ''A'' () fmempty),
          cycles = fmempty, validated = True\<rparr>, False)
   \<and> AddNode \<lparr>dag = fmupd ''B'' [] (fmupd ''A'' [''B''] fmempty),
        node_values = fmupd ''B'' () (fmupd ''A'' () fmempty),
        cycles = fmempty, validated = True\<rparr> ''C'' () [''B''] [''A'']
      = Inr (\<lparr>dag = fmupd ''C'' [''A''] (fmupd ''B'' [''C''] (fmupd ''A'' [''B''] fmempty)),
              node_values = fmupd ''C'' () (fmupd ''B'' () (fmupd ''A'' () fmempty)),
              cycles = fmempty, validated = False\<rparr>, None)
   \<and> \<not> validated \<lparr>dag = fmupd ''C'' [''A''] (fmupd ''B'' [''C''] (fmupd ''A'' [''B''] fmempty)),
              node_values = fmupd ''C'' () (fmupd ''B'' () (fmupd ''A'' () fmempty)),
              cycles = fmempty, validated = False\<rparr>
   \<and> HasCycle \<lparr>dag = fmupd ''C'' [''A''] (fmupd ''B'' [''C''] (fmupd ''A'' [''B''] fmempty)),
              node_values = fmupd ''C'' () (fmupd ''B'' () (fmupd ''A'' () fmempty)),
              cycles = fmempty, validated = False\<rparr> ''A''
      = (fst (Validate \<lparr>dag = fmupd ''C'' [''A''] (fmupd ''B'' [''C''] (fmupd ''A'' [''B''] fmempty)),
              node_values = fmupd ''C'' () (fmupd ''B'' () (fmupd ''A'' () fmempty)),
              cycles = fmempty, validated = False\<rparr>), True)"
proof -
  let ?d = "\<lparr>dag = fmupd ''B'' [] (fmupd ''A'' [''B''] fmempty),
        node_values = fmupd ''B'' () (fmupd ''A'' () fmempty),
        cycles = fmempty, validated = True\<rparr>"
  let ?d' = "\<lparr>dag = fmupd ''C'' [''A''] (fmupd ''B'' [''C''] (fmupd ''A'' [''B''] fmempty)),
              node_values = fmupd ''C'' () (fmupd ''B'' () (fmupd ''A'' () fmempty)),
              cycles = fmempty, validated = False\<rparr>"
  have add: "AddNode ?d ''C'' () [''B''] [''A''] = Inr (?d', None)" by code_simp
  have v: "snd (snd (Validate ?d')) = Some (ErrCycleDetected ''A'')"
    "cycles_at (fst (Validate ?d')) ''A'' = True" "cycles_at ?d ''A'' = False"
    by code_simp+
  note t = HasCycle_lazy_validation[of ?d "''A''" "''C''" "()" "[''B'']" "[''A'']" ?d']
  from t have 1: "HasCycle ?d ''A'' = (?d, cycles_at ?d ''A'')" by simp
  note t' = HasCycle_lazy_validation[of ?d' "''A''" "''C''" "()" "[''B'']" "[''A'']" ?d']
  from t' have 2: "HasCycle ?d' ''A'' =
          (fst (Validate ?d'),
           case snd (snd (Validate ?d')) of
             None \<Rightarrow> False
           | Some err \<Rightarrow> cycles_at (fst (Validate ?d')) ''A'')" by simp
  show ?thesis using add 1 2 v by simp
qed

text \<open>
  C1 (the code at the input of the claim). The calls insert \<open>A\<close>, \<open>B\<close>, \<open>C\<close> with the successor hints that close the
  cycle \<open>A \<rightarrow> B \<rightarrow> C \<rightarrow> A\<close>, and a node \<open>D\<close> without edges. \<open>Validate\<close> returns the reason
  \<open>A -> B -> C -> A\<close> with \<open>ErrCycleDetected\<close> for \<open>A\<close>, and stops there: the cycle set holds
  \<open>A\<close> alone. \<open>HasCycle\<close> answers true for \<open>A\<close> and false for \<open>B\<close>, \<open>C\<close> and \<open>D\<close>, both when
  it validates itself and on the structure \<open>Validate\<close> left.
\<close>

theorem cycle_ABC_marks_only_A:
  "AddNodes (New :: unit DAG)
      [(''A'', (), [], [''B'']), (''B'', (), [], [''C'']), (''C'', (), [], [''A'']),
       (''D'', (), [], [])]
     = Inr (\<lparr>dag = fmupd ''D'' []
                     (fmupd ''C'' [''A''] (fmupd ''B'' [''C''] (fmupd ''A'' [''B''] fmempty))),
             node_values =
               fmupd ''D'' () (fmupd ''C'' () (fmupd ''B'' () (fmupd ''A'' () fmempty))),
             cycles = fmempty, validated = False\<rparr>, [None, None, None, None])
   \<and> Validate
       \<lparr>dag = fmupd ''D'' []
                (fmupd ''C'' [''A''] (fmupd ''B'' [''C''] (fmupd ''A'' [''B''] fmempty))),
        node_values =
          fmupd ''D'' () (fmupd ''C'' () (fmupd ''B'' () (fmupd ''A'' () fmempty))),
        cycles = fmempty, validated = False\<rparr>
     = (\<lparr>dag = fmupd ''D'' []
                 (fmupd ''C'' [''A''] (fmupd ''B'' [''C''] (fmupd ''A'' [''B''] fmempty))),
         node_values =
           fmupd ''D'' () (fmupd ''C'' () (fmupd ''B'' () (fmupd ''A'' () fmempty))),
         cycles = fmupd ''A'' True fmempty, validated = True\<rparr>,
        ''A -> B -> C -> A'', Some (ErrCycleDetected ''A''))
   \<and> map (\<lambda>nid. snd (HasCycle
         \<lparr>dag = fmupd ''D'' []
                  (fmupd ''C'' [''A''] (fmupd ''B'' [''C''] (fmupd ''A'' [''B''] fmempty))),
          node_values =
            fmupd ''D'' () (fmupd ''C'' () (fmupd ''B'' () (fmupd ''A'' () fmempty))),
          cycles = fmempty, validated = False\<rparr> nid)) [''A'', ''B'', ''C'', ''D'']
     = [True, False, False, False]
   \<and> map (\<lambda>nid. snd (HasCycle
         \<lparr>dag = fmupd ''D'' []
                  (fmupd ''C'' [''A''] (fmupd ''B'' [''C''] (fmupd ''A'' [''B''] fmempty))),
          node_values =
            fmupd ''D'' () (fmupd ''C'' () (fmupd ''B'' () (fmupd ''A'' () fmempty))),
          cycles = fmupd ''A'' True fmempty, validated = True\<rparr> nid))
       [''A'', ''B'', ''C'', ''D'']
     = [True, False, False, False]"
  by code_simp

section \<open>Properties of the orderer\<close>

text \<open>
  \<open>closed dg order\<close>: no id occurs twice in \<open>order\<close>, and every id in it comes after all
  the ids of its edge list.
\<close>

definition closed :: "(ID, ID list) fmap \<Rightarrow> ID list \<Rightarrow> bool" where
  "closed dg order \<longleftrightarrow>
     distinct order \<and> (\<forall>pre u post. order = pre @ u # post \<longrightarrow> set (dag_at dg u) \<subseteq> set pre)"

lemma closed_Nil: "closed dg []"
  by (simp add: closed_def)

lemma closed_snoc:
  assumes "closed dg order" "u \<notin> set order" "set (dag_at dg u) \<subseteq> set order"
  shows "closed dg (order @ [u])"
  unfolding closed_def
proof (intro conjI allI impI)
  show "distinct (order @ [u])" using assms by (simp add: closed_def)
next
  fix pre w post
  assume eq: "order @ [u] = pre @ w # post"
  show "set (dag_at dg w) \<subseteq> set pre"
  proof (cases post rule: rev_cases)
    case Nil
    with eq assms(3) show ?thesis by simp
  next
    case (snoc post' z)
    with eq have "order = pre @ w # post'" by simp
    with assms(1) show ?thesis by (auto simp: closed_def)
  qed
qed

lemma takeWhile_first: "u \<notin> set pre \<Longrightarrow> takeWhile (\<lambda>x. x \<noteq> u) (pre @ u # post) = pre"
  by (induction pre) auto

lemma closed_children:
  assumes "closed dg order" "u \<in> set order" "v \<in> set (dag_at dg u)"
  shows "appears_before order v u"
proof -
  from assms(2) obtain pre post where o: "order = pre @ u # post" "u \<notin> set pre"
    by (auto dest: split_list_first)
  with assms have "v \<in> set pre" by (auto simp: closed_def)
  moreover have "takeWhile (\<lambda>x. x \<noteq> u) order = pre"
    using o by (simp add: takeWhile_first)
  ultimately show ?thesis using assms(2) by (simp add: appears_before_def)
qed

lemma appears_before_iff:
  "appears_before order v u \<longleftrightarrow> (\<exists>pre post. order = pre @ u # post \<and> u \<notin> set pre \<and> v \<in> set pre)"
proof
  assume a: "appears_before order v u"
  then obtain pre post where o: "order = pre @ u # post" "u \<notin> set pre"
    by (auto simp: appears_before_def dest: split_list_first)
  then have "takeWhile (\<lambda>x. x \<noteq> u) order = pre"
    by (simp add: takeWhile_first)
  with a o show "\<exists>pre post. order = pre @ u # post \<and> u \<notin> set pre \<and> v \<in> set pre"
    by (auto simp: appears_before_def)
next
  assume "\<exists>pre post. order = pre @ u # post \<and> u \<notin> set pre \<and> v \<in> set pre"
  then obtain pre post where o: "order = pre @ u # post" "u \<notin> set pre" "v \<in> set pre" by blast
  then have "takeWhile (\<lambda>x. x \<noteq> u) order = pre"
    by (simp add: takeWhile_first)
  with o show "appears_before order v u" by (simp add: appears_before_def)
qed

lemma appears_before_trans:
  assumes "appears_before order w v" "appears_before order v u"
  shows "appears_before order w u"
proof -
  from assms(2) obtain pre post where o: "order = pre @ u # post" "u \<notin> set pre" "v \<in> set pre"
    by (auto simp: appears_before_iff)
  from o(3) obtain p1 p2 where p: "pre = p1 @ v # p2" "v \<notin> set p1"
    by (auto dest: split_list_first)
  from assms(1) obtain q1 q2 where q: "order = q1 @ v # q2" "v \<notin> set q1" "w \<in> set q1"
    by (auto simp: appears_before_iff)
  have "order = p1 @ v # (p2 @ u # post)" using o p by simp
  with q p(2) have "q1 = p1"
    using takeWhile_first[of v q1 q2] takeWhile_first[of v p1 "p2 @ u # post"] by simp
  with q p have "w \<in> set pre" by simp
  with o show ?thesis unfolding appears_before_iff by blast
qed

lemma appears_before_prefix:
  assumes "prefix order order'" "a \<in> set order" "b \<notin> set order" "b \<in> set order'"
  shows "appears_before order' a b"
proof -
  from assms(1) obtain zs where z: "order' = order @ zs" by (auto simp: prefix_def)
  with assms have "b \<in> set zs" by auto
  then obtain z1 z2 where "zs = z1 @ b # z2" "b \<notin> set z1" by (auto dest: split_list_first)
  with z assms show ?thesis
    unfolding appears_before_iff
    by (intro exI[of _ "order @ z1"] exI[of _ z2]) auto
qed

text \<open>
  What one walk, and one run of the loop over the children, do to the variables of
  \<open>Order\<close>, where \<open>visited\<close> holds the ids of \<open>order\<close>: they return, \<open>order\<close> is extended
  at its end, by ids reachable from where the walk started, and stays closed.
\<close>

lemma range_walk_append:
  "range_walk body (xs @ ys) s = Option.bind (range_walk body xs s) (range_walk body ys)"
  by (induction xs arbitrary: s) (auto split: option.splits)

definition walk_ok :: "(ID, ID list) fmap \<Rightarrow> ID \<Rightarrow> ID list \<Rightarrow> ID list \<Rightarrow> bool" where
  "walk_ok dg nid order order' \<longleftrightarrow>
     walkFrom dg Order_do nid (order, fset_of_list order) = Some (order', fset_of_list order')
     \<and> prefix order order' \<and> nid \<in> set order'
     \<and> set order' \<subseteq> set order \<union> (edges dg)\<^sup>* `` {nid}
     \<and> (closed dg order \<longrightarrow> closed dg order')"

definition range_ok :: "(ID, ID list) fmap \<Rightarrow> ID list \<Rightarrow> ID list \<Rightarrow> ID list \<Rightarrow> bool" where
  "range_ok dg xs order order' \<longleftrightarrow>
     range_walk (walkFrom dg Order_do) xs (order, fset_of_list order)
       = Some (order', fset_of_list order')
     \<and> prefix order order' \<and> set xs \<subseteq> set order'
     \<and> set order' \<subseteq> set order \<union> (edges dg)\<^sup>* `` set xs
     \<and> (closed dg order \<longrightarrow> closed dg order')"

lemma range_ok_step:
  assumes "\<And>x order. x \<in> set xs \<Longrightarrow> \<exists>order'. walk_ok dg x order order'"
  shows "\<exists>order'. range_ok dg xs order order'"
  using assms
proof (induction xs arbitrary: order)
  case Nil
  show ?case by (auto simp: range_ok_def)
next
  case (Cons x xs)
  obtain o1 where 1: "walk_ok dg x order o1" using Cons.prems by auto
  have "\<And>y order. y \<in> set xs \<Longrightarrow> \<exists>order'. walk_ok dg y order order'"
    using Cons.prems by simp
  from Cons.IH[OF this] obtain o2 where 2: "range_ok dg xs o1 o2" by blast
  from 1 have a: "walkFrom dg Order_do x (order, fset_of_list order) = Some (o1, fset_of_list o1)"
    "prefix order o1" "x \<in> set o1" "set o1 \<subseteq> set order \<union> (edges dg)\<^sup>* `` {x}"
    "closed dg order \<longrightarrow> closed dg o1"
    by (simp_all add: walk_ok_def)
  from 2 have b: "range_walk (walkFrom dg Order_do) xs (o1, fset_of_list o1)
       = Some (o2, fset_of_list o2)"
    "prefix o1 o2" "set xs \<subseteq> set o2" "set o2 \<subseteq> set o1 \<union> (edges dg)\<^sup>* `` set xs"
    "closed dg o1 \<longrightarrow> closed dg o2"
    by (simp_all add: range_ok_def)
  have c1: "range_walk (walkFrom dg Order_do) (x # xs) (order, fset_of_list order)
       = Some (o2, fset_of_list o2)"
    using a(1) b(1) by simp
  have c2: "prefix order o2" using a(2) b(2) by (rule prefix_order.trans)
  have c3: "set (x # xs) \<subseteq> set o2" using a(3) b(2,3) set_mono_prefix[OF b(2)] by auto
  have c4: "set o2 \<subseteq> set order \<union> (edges dg)\<^sup>* `` set (x # xs)"
  proof
    fix y assume "y \<in> set o2"
    with b(4) have "y \<in> set o1 \<or> y \<in> (edges dg)\<^sup>* `` set xs" by blast
    with a(4) have "y \<in> set order \<or> y \<in> (edges dg)\<^sup>* `` {x} \<or> y \<in> (edges dg)\<^sup>* `` set xs"
      by blast
    then show "y \<in> set order \<union> (edges dg)\<^sup>* `` set (x # xs)" by auto
  qed
  have c5: "closed dg order \<longrightarrow> closed dg o2" using a(5) b(5) by blast
  have "range_ok dg (x # xs) order o2"
    unfolding range_ok_def using c1 c2 c3 c4 c5 by blast
  then show ?case ..
qed

lemma walk_ok_ex:
  assumes "acyclic (edges dg)"
  shows "\<exists>order'. walk_ok dg nid order order'"
proof -
  have wf: "wf ((edges dg)\<inverse>)"
    using finite_edges assms by (rule finite_acyclic_wf_converse)
  show ?thesis
  proof (induction nid arbitrary: order rule: wf_induct_rule[OF wf])
    case (1 nid)
    have "\<And>x order. x \<in> set (sortedIds (dag_at dg nid)) \<Longrightarrow> \<exists>order'. walk_ok dg x order order'"
      using 1 by (auto simp: sortedIds_def edges_iff)
    from range_ok_step[OF this] obtain o1
      where r: "range_ok dg (sortedIds (dag_at dg nid)) order o1" by blast
    let ?o' = "if nid \<in> set o1 then o1 else o1 @ [nid]"
    have do: "Order_do nid (o1, fset_of_list o1) = (?o', fset_of_list ?o')"
      by (auto simp: Order_do_def fset_of_list_elem)
    have w: "walkFrom dg Order_do nid (order, fset_of_list order) = Some (?o', fset_of_list ?o')"
      using r do by (subst walkFrom.simps) (simp add: range_ok_def)
    have ch: "set (dag_at dg nid) \<subseteq> set o1"
      using r by (simp add: range_ok_def sortedIds_def)
    have reach: "(edges dg)\<^sup>* `` set (dag_at dg nid) \<subseteq> (edges dg)\<^sup>* `` {nid}"
      by (auto simp: edges_iff intro: converse_rtrancl_into_rtrancl)
    have "set o1 \<subseteq> set order \<union> (edges dg)\<^sup>* `` set (dag_at dg nid)"
      using r by (simp add: range_ok_def sortedIds_def)
    with reach have "set o1 \<subseteq> set order \<union> (edges dg)\<^sup>* `` {nid}" by blast
    then have sub: "set ?o' \<subseteq> set order \<union> (edges dg)\<^sup>* `` {nid}" by auto
    have pre: "prefix order ?o'" using r by (auto simp: range_ok_def intro: prefix_order.trans)
    have cl: "closed dg order \<longrightarrow> closed dg ?o'"
      using r ch by (auto simp: range_ok_def intro: closed_snoc)
    have "walk_ok dg nid order ?o'"
      unfolding walk_ok_def using w sub pre cl by simp
    then show ?case ..
  qed
qed

lemma range_ok_ex:
  assumes "acyclic (edges dg)"
  shows "\<exists>order'. range_ok dg xs order order'"
  by (rule range_ok_step) (rule walk_ok_ex[OF assms])

lemma set_IDs: "set (IDs d) = fmdom' (dag d)"
  by (simp add: IDs_def IDs_of_def fmdom'_alt_def)

lemma Order_range_ok:
  assumes "acyclic (edges dg)"
  shows "\<exists>order'. Order_range dg ids (order, fset_of_list order) = Some (order', fset_of_list order')
     \<and> prefix order order' \<and> set ids \<subseteq> set order'
     \<and> set order' \<subseteq> set order \<union> (edges dg)\<^sup>* `` set ids
     \<and> (closed dg order \<longrightarrow> closed dg order')"
proof (induction ids arbitrary: order)
  case Nil
  show ?case by simp
next
  case (Cons nid ids)
  show ?case
  proof (cases "nid \<in> set order")
    case True
    from Cons.IH[of order] obtain o2 where
      b: "Order_range dg ids (order, fset_of_list order) = Some (o2, fset_of_list o2)"
      "prefix order o2" "set ids \<subseteq> set o2" "set o2 \<subseteq> set order \<union> (edges dg)\<^sup>* `` set ids"
      "closed dg order \<longrightarrow> closed dg o2" by blast
    have c1: "Order_range dg (nid # ids) (order, fset_of_list order) = Some (o2, fset_of_list o2)"
      using True b(1) by (simp add: fset_of_list_elem)
    have c3: "set (nid # ids) \<subseteq> set o2" using True b(3) set_mono_prefix[OF b(2)] by auto
    have c4: "set o2 \<subseteq> set order \<union> (edges dg)\<^sup>* `` set (nid # ids)" using b(4) by auto
    show ?thesis using c1 b(2) c3 c4 b(5) by blast
  next
    case False
    from walk_ok_ex[OF assms, of nid order] obtain o1 where
      a: "walkFrom dg Order_do nid (order, fset_of_list order) = Some (o1, fset_of_list o1)"
      "prefix order o1" "nid \<in> set o1" "set o1 \<subseteq> set order \<union> (edges dg)\<^sup>* `` {nid}"
      "closed dg order \<longrightarrow> closed dg o1"
      by (auto simp: walk_ok_def)
    from Cons.IH[of o1] obtain o2 where
      b: "Order_range dg ids (o1, fset_of_list o1) = Some (o2, fset_of_list o2)"
      "prefix o1 o2" "set ids \<subseteq> set o2" "set o2 \<subseteq> set o1 \<union> (edges dg)\<^sup>* `` set ids"
      "closed dg o1 \<longrightarrow> closed dg o2" by blast
    have "finsert nid (fset_of_list o1) = fset_of_list o1"
      using a(3) by (auto simp: fset_of_list_elem)
    then have c1: "Order_range dg (nid # ids) (order, fset_of_list order) = Some (o2, fset_of_list o2)"
      using False a(1) b(1) by (simp add: fset_of_list_elem)
    have c2: "prefix order o2" using a(2) b(2) by (rule prefix_order.trans)
    have c3: "set (nid # ids) \<subseteq> set o2" using a(3) b(3) set_mono_prefix[OF b(2)] by auto
    have c4: "set o2 \<subseteq> set order \<union> (edges dg)\<^sup>* `` set (nid # ids)"
    proof
      fix y assume "y \<in> set o2"
      with b(4) have "y \<in> set o1 \<or> y \<in> (edges dg)\<^sup>* `` set ids" by blast
      with a(4) have "y \<in> set order \<or> y \<in> (edges dg)\<^sup>* `` {nid} \<or> y \<in> (edges dg)\<^sup>* `` set ids"
        by blast
      then show "y \<in> set order \<union> (edges dg)\<^sup>* `` set (nid # ids)" by auto
    qed
    have c5: "closed dg order \<longrightarrow> closed dg o2" using a(5) b(5) by blast
    show ?thesis using c1 c2 c3 c4 c5 by blast
  qed
qed

lemma Order_closed:
  assumes "acyclic (edges (dag d))"
  shows "\<exists>order. Order d = Some order \<and> closed (dag d) order
     \<and> set order = fmdom' (dag d) \<union> Range (edges (dag d))"
proof -
  from Order_range_ok[OF assms, of "IDs d" "[]"] obtain order where
    o: "Order_range (dag d) (IDs d) ([], {||}) = Some (order, fset_of_list order)"
    "set (IDs d) \<subseteq> set order" "set order \<subseteq> (edges (dag d))\<^sup>* `` set (IDs d)"
    "closed (dag d) order"
    by (auto simp: closed_Nil)
  have 1: "Order d = Some order" using o(1) by (simp add: Order_def)
  have 2: "fmdom' (dag d) \<subseteq> set order" using o(2) by (simp add: set_IDs)
  have 3: "Range (edges (dag d)) \<subseteq> set order"
  proof
    fix v assume "v \<in> Range (edges (dag d))"
    then obtain u where e: "v \<in> set (dag_at (dag d) u)" by (auto simp: edges_iff)
    then have "u |\<in>| fmdom (dag d)" using dag_at_notin[of u "dag d"] by (cases "u |\<in>| fmdom (dag d)") auto
    then have "u \<in> set order" using 2 by (auto simp: fmdom'_alt_def)
    from closed_children[OF o(4) this e] show "v \<in> set order"
      by (auto simp: appears_before_def dest: set_takeWhileD)
  qed
  have 4: "set order \<subseteq> fmdom' (dag d) \<union> Range (edges (dag d))"
  proof
    fix y assume "y \<in> set order"
    with o(3) obtain k where k: "k \<in> fmdom' (dag d)" "(k, y) \<in> (edges (dag d))\<^sup>*"
      by (auto simp: set_IDs)
    from k(2) show "y \<in> fmdom' (dag d) \<union> Range (edges (dag d))"
      using k(1) by (cases rule: rtranclE) auto
  qed
  show ?thesis using 1 2 3 4 o(4) by blast
qed

lemma closed_trancl:
  assumes "closed dg order" "fmdom' dg \<subseteq> set order" "(u, v) \<in> (edges dg)\<^sup>+"
  shows "appears_before order v u"
  using assms(3)
proof (induction rule: trancl_induct)
  case (base v)
  then have e: "v \<in> set (dag_at dg u)" by (simp add: edges_iff)
  then have "u |\<in>| fmdom dg" using dag_at_notin[of u dg] by (cases "u |\<in>| fmdom dg") auto
  then have "u \<in> set order" using assms(2) by (auto simp: fmdom'_alt_def)
  from closed_children[OF assms(1) this e] show ?case .
next
  case (step v w)
  then have e: "w \<in> set (dag_at dg v)" by (simp add: edges_iff)
  have "v \<in> set order" using step.IH by (auto simp: appears_before_def dest: set_takeWhileD)
  from closed_children[OF assms(1) this e] step.IH show ?case by (rule appears_before_trans)
qed

lemma sort_split:
  fixes b :: "'a::linorder"
  shows "sort xs = sort [x\<leftarrow>xs. x < b] @ sort [x\<leftarrow>xs. \<not> x < b]"
proof (rule properties_for_sort)
  show "mset (sort [x\<leftarrow>xs. x < b] @ sort [x\<leftarrow>xs. \<not> x < b]) = mset xs"
    by simp
  show "sorted (sort [x\<leftarrow>xs. x < b] @ sort [x\<leftarrow>xs. \<not> x < b])"
    by (auto simp: sorted_append)
qed

lemma walkFrom_smaller_child_first:
  assumes ac: "acyclic (edges dg)"
    and a: "a \<in> set (dag_at dg u)" and b: "b \<in> set (dag_at dg u)" and ab: "a < b"
    and fresh: "b \<notin> set order"
    and unreach: "\<forall>c\<in>set (dag_at dg u). c < b \<longrightarrow> (c, b) \<notin> (edges dg)\<^sup>*"
  shows "\<exists>order'. walkFrom dg Order_do u (order, fset_of_list order)
            = Some (order', fset_of_list order') \<and> appears_before order' a b"
proof -
  let ?xs1 = "sort [x\<leftarrow>dag_at dg u. x < b]" and ?xs2 = "sort [x\<leftarrow>dag_at dg u. \<not> x < b]"
  have xs: "sortedIds (dag_at dg u) = ?xs1 @ ?xs2"
    unfolding sortedIds_def by (rule sort_split)
  from range_ok_ex[OF ac, of ?xs1 order] obtain o1 where
    r1: "range_walk (walkFrom dg Order_do) ?xs1 (order, fset_of_list order)
       = Some (o1, fset_of_list o1)"
    "prefix order o1" "set ?xs1 \<subseteq> set o1" "set o1 \<subseteq> set order \<union> (edges dg)\<^sup>* `` set ?xs1"
    by (auto simp: range_ok_def)
  from range_ok_ex[OF ac, of ?xs2 o1] obtain o2 where
    r2: "range_walk (walkFrom dg Order_do) ?xs2 (o1, fset_of_list o1)
       = Some (o2, fset_of_list o2)"
    "prefix o1 o2" "set ?xs2 \<subseteq> set o2"
    by (auto simp: range_ok_def)
  have a1: "a \<in> set o1" using r1(3) a ab by auto
  have b1: "b \<notin> set o1"
  proof
    assume "b \<in> set o1"
    with r1(4) fresh have "b \<in> (edges dg)\<^sup>* `` set ?xs1" by blast
    then obtain c where "c \<in> set (dag_at dg u)" "c < b" "(c, b) \<in> (edges dg)\<^sup>*" by auto
    with unreach show False by blast
  qed
  have b2: "b \<in> set o2" using r2(3) b by auto
  let ?o' = "if u \<in> set o2 then o2 else o2 @ [u]"
  have do: "Order_do u (o2, fset_of_list o2) = (?o', fset_of_list ?o')"
    by (auto simp: Order_do_def fset_of_list_elem)
  have "range_walk (walkFrom dg Order_do) (sortedIds (dag_at dg u)) (order, fset_of_list order)
      = Some (o2, fset_of_list o2)"
    unfolding xs range_walk_append using r1(1) r2(1) by simp
  then have w: "walkFrom dg Order_do u (order, fset_of_list order) = Some (?o', fset_of_list ?o')"
    using do by (subst walkFrom.simps) simp
  have "prefix o1 ?o'" using r2(2) by (auto intro: prefix_order.trans)
  moreover have "b \<in> set ?o'" using b2 by simp
  ultimately have "appears_before ?o' a b" using a1 b1 by (intro appears_before_prefix)
  with w show ?thesis by blast
qed

lemma range_walk_le:
  assumes "\<And>x s y. x \<in> set xs \<Longrightarrow> f x s = Some y \<Longrightarrow> g x s = Some y"
    and "range_walk f xs s = Some r"
  shows "range_walk g xs s = Some r"
  using assms by (induction xs arbitrary: s) (auto split: option.splits)

lemma walkFrom_perm_le:
  assumes p: "\<And>u. mset (dag_at dg1 u) = mset (dag_at dg2 u)"
    and w: "walkFrom dg1 do nid s = Some y"
  shows "walkFrom dg2 do nid s = Some y"
proof -
  have "dg1 = dg1 \<longrightarrow> walkFrom dg2 do nid s = Some y"
  proof (rule walkFrom.raw_induct[where P = "\<lambda>dg do nid s y. dg = dg1 \<longrightarrow> walkFrom dg2 do nid s = Some y",
        OF _ w], goal_cases)
    case (1 f dg do nid s y)
    show ?case
    proof
      assume dg: "dg = dg1"
      from 1(2) obtain s1 where s1: "range_walk (f dg do) (sortedIds (dag_at dg nid)) s = Some s1"
        "y = do nid s1" by (auto simp: bind_eq_Some_conv)
      have "sort (dag_at dg1 nid) = sort (dag_at dg2 nid)"
        by (rule properties_for_sort) (simp_all add: p[of nid])
      then have eq: "sortedIds (dag_at dg nid) = sortedIds (dag_at dg2 nid)"
        using dg by (simp add: sortedIds_def)
      have "range_walk (walkFrom dg2 do) (sortedIds (dag_at dg nid)) s = Some s1"
        using _ s1(1) by (rule range_walk_le) (use 1(1) dg in auto)
      with eq show "walkFrom dg2 do nid s = Some y"
        using s1(2) by (subst walkFrom.simps) simp
    qed
  qed
  then show ?thesis by simp
qed

lemma walkFrom_perm:
  assumes "\<And>u. mset (dag_at dg1 u) = mset (dag_at dg2 u)"
  shows "walkFrom dg1 do nid s = walkFrom dg2 do nid s"
proof (cases "walkFrom dg1 do nid s")
  case None
  show ?thesis
  proof (cases "walkFrom dg2 do nid s")
    case (Some y)
    from walkFrom_perm_le[OF assms[symmetric] this] None show ?thesis by simp
  qed (simp add: None)
next
  case (Some y)
  from walkFrom_perm_le[OF assms this] Some show ?thesis by simp
qed

lemma Order_range_perm:
  assumes "\<And>u. mset (dag_at dg1 u) = mset (dag_at dg2 u)"
  shows "Order_range dg1 ids st = Order_range dg2 ids st"
  by (induction ids arbitrary: st) (auto simp: walkFrom_perm[OF assms] split: option.splits)

text \<open>
  C5. On a structure whose adjacency map has no cycle, \<open>Order\<close> returns a list that holds
  every key and every id of an edge list exactly once, and in which every id reachable from
  an id \<open>u\<close> by one or more edges comes before \<open>u\<close>; so \<open>v\<close> comes before \<open>u\<close> for every edge
  \<open>u \<rightarrow> v\<close>. At every node the walk goes into the smaller child first: when the walk of \<open>u\<close>
  starts with \<open>b\<close> not yet in the output, and no child of \<open>u\<close> smaller than \<open>b\<close> reaches \<open>b\<close>,
  then every child of \<open>u\<close> smaller than \<open>b\<close> is in the output before \<open>b\<close>.
\<close>

theorem Order_reverse_topological:
  assumes "acyclic (edges (dag d))"
  shows "(\<exists>order. Order d = Some order \<and> distinct order
            \<and> set order = fmdom' (dag d) \<union> Range (edges (dag d))
            \<and> (\<forall>u v. (u, v) \<in> (edges (dag d))\<^sup>+ \<longrightarrow> appears_before order v u))
     \<and> (\<forall>u a b order0.
            a \<in> set (ChildrenOf d u) \<and> b \<in> set (ChildrenOf d u) \<and> a < b \<and> b \<notin> set order0
            \<and> (\<forall>c\<in>set (ChildrenOf d u). c < b \<longrightarrow> (c, b) \<notin> (edges (dag d))\<^sup>*)
          \<longrightarrow> (\<exists>order'. walkFrom (dag d) Order_do u (order0, fset_of_list order0)
                             = Some (order', fset_of_list order')
                   \<and> appears_before order' a b))"
proof
  from Order_closed[OF assms] obtain order where o: "Order d = Some order"
    "closed (dag d) order" "set order = fmdom' (dag d) \<union> Range (edges (dag d))" by blast
  have "distinct order" using o(2) by (simp add: closed_def)
  moreover have "\<forall>u v. (u, v) \<in> (edges (dag d))\<^sup>+ \<longrightarrow> appears_before order v u"
    using closed_trancl[OF o(2)] o(3) by blast
  ultimately show "\<exists>order. Order d = Some order \<and> distinct order
            \<and> set order = fmdom' (dag d) \<union> Range (edges (dag d))
            \<and> (\<forall>u v. (u, v) \<in> (edges (dag d))\<^sup>+ \<longrightarrow> appears_before order v u)"
    using o(1,3) by blast
next
  show "\<forall>u a b order0.
            a \<in> set (ChildrenOf d u) \<and> b \<in> set (ChildrenOf d u) \<and> a < b \<and> b \<notin> set order0
            \<and> (\<forall>c\<in>set (ChildrenOf d u). c < b \<longrightarrow> (c, b) \<notin> (edges (dag d))\<^sup>*)
          \<longrightarrow> (\<exists>order'. walkFrom (dag d) Order_do u (order0, fset_of_list order0)
                             = Some (order', fset_of_list order')
                   \<and> appears_before order' a b)"
    using walkFrom_smaller_child_first[OF assms] unfolding ChildrenOf_def by blast
qed

theorem Order_reverse_topological_witness:
  "acyclic (edges (dag \<lparr>dag = fmupd ''A'' [''C'', ''B''] (fmupd ''B'' [] (fmupd ''C'' [] fmempty)),
        node_values = fmempty :: (ID, unit) fmap, cycles = fmempty, validated = False\<rparr>))
   \<and> Order \<lparr>dag = fmupd ''A'' [''C'', ''B''] (fmupd ''B'' [] (fmupd ''C'' [] fmempty)),
        node_values = fmempty :: (ID, unit) fmap, cycles = fmempty, validated = False\<rparr>
       = Some [''B'', ''C'', ''A'']
   \<and> (''A'', ''B'') \<in> (edges (dag \<lparr>dag = fmupd ''A'' [''C'', ''B''] (fmupd ''B'' [] (fmupd ''C'' [] fmempty)),
        node_values = fmempty :: (ID, unit) fmap, cycles = fmempty, validated = False\<rparr>))\<^sup>+
   \<and> appears_before [''B'', ''C'', ''A''] ''B'' ''A''
   \<and> (''A'', ''C'') \<in> (edges (dag \<lparr>dag = fmupd ''A'' [''C'', ''B''] (fmupd ''B'' [] (fmupd ''C'' [] fmempty)),
        node_values = fmempty :: (ID, unit) fmap, cycles = fmempty, validated = False\<rparr>))\<^sup>+
   \<and> appears_before [''B'', ''C'', ''A''] ''C'' ''A''
   \<and> ''B'' < ''C''
   \<and> (''B'', ''C'') \<notin> (edges (dag \<lparr>dag = fmupd ''A'' [''C'', ''B''] (fmupd ''B'' [] (fmupd ''C'' [] fmempty)),
        node_values = fmempty :: (ID, unit) fmap, cycles = fmempty, validated = False\<rparr>))\<^sup>*
   \<and> walkFrom (fmupd ''A'' [''C'', ''B''] (fmupd ''B'' [] (fmupd ''C'' [] fmempty))) Order_do ''A''
         ([], fset_of_list [])
       = Some ([''B'', ''C'', ''A''], fset_of_list [''B'', ''C'', ''A''])
   \<and> appears_before [''B'', ''C'', ''A''] ''B'' ''C''"
proof -
  let ?d = "\<lparr>dag = fmupd ''A'' [''C'', ''B''] (fmupd ''B'' [] (fmupd ''C'' [] fmempty)),
        node_values = fmempty :: (ID, unit) fmap, cycles = fmempty, validated = False\<rparr>"
  have ac: "acyclic (edges (dag ?d))" by code_simp
  have ord: "Order ?d = Some [''B'', ''C'', ''A'']" by code_simp
  have e1: "(''A'', ''B'') \<in> (edges (dag ?d))\<^sup>+" and e2: "(''A'', ''C'') \<in> (edges (dag ?d))\<^sup>+"
    by (auto simp: edges_iff dag_at_def)
  have lt: "(''B'' :: ID) < ''C''" by code_simp
  have nr: "(''B'', ''C'') \<notin> (edges (dag ?d))\<^sup>*"
    by (auto simp: edges_iff dag_at_def elim: converse_rtranclE)
  have w: "walkFrom (dag ?d) Order_do ''A'' ([], fset_of_list [])
       = Some ([''B'', ''C'', ''A''], fset_of_list [''B'', ''C'', ''A''])"
    by code_simp
  note t = Order_reverse_topological[OF ac]
  from t ord have b: "\<forall>u v. (u, v) \<in> (edges (dag ?d))\<^sup>+ \<longrightarrow> appears_before [''B'', ''C'', ''A''] v u"
    by auto
  have hyp: "''B'' \<in> set (ChildrenOf ?d ''A'') \<and> ''C'' \<in> set (ChildrenOf ?d ''A'') \<and> (''B'' :: ID) < ''C''
      \<and> ''C'' \<notin> set ([] :: ID list)
      \<and> (\<forall>c\<in>set (ChildrenOf ?d ''A''). c < ''C'' \<longrightarrow> (c, ''C'') \<notin> (edges (dag ?d))\<^sup>*)"
    using lt nr by (auto simp: ChildrenOf_def dag_at_def)
  from t hyp obtain order' where
    "walkFrom (dag ?d) Order_do ''A'' ([], fset_of_list []) = Some (order', fset_of_list order')"
    "appears_before order' ''B'' ''C''" by blast
  with w have tb: "appears_before [''B'', ''C'', ''A''] ''B'' ''C''" by simp
  show ?thesis using ac ord e1 e2 b lt nr w tb by simp
qed

lemma IDs_of_any_order:
  assumes "distinct ks" "set ks = fmdom' (dag d)"
  shows "IDs_of ks = IDs d"
proof -
  have "mset ks = mset (sorted_list_of_fset (fmdom (dag d)))"
    using assms by (intro set_eq_iff_mset_eq_distinct[THEN iffD1])
      (auto simp: fmdom'_alt_def sorted_list_of_fset.rep_eq)
  then have "sort ks = sort (sorted_list_of_fset (fmdom (dag d)))"
    by (intro properties_for_sort) simp_all
  then show ?thesis by (simp add: IDs_def IDs_of_def)
qed

text \<open>
  C6. \<open>IDs\<close> and \<open>Order\<close> read the structure and return a sequence: they do not change
  the structure, and their results are functions of the adjacency map alone. \<open>IDs\<close> is
  sorted ascending, without repetition, holds exactly the keys, and is the same in
  whatever order the range over the map yields the keys. Two structures with the same keys
  whose edge lists are rearrangements of each other have the same \<open>IDs\<close> and the same
  \<open>Order\<close>; such are the structures that two sequences of \<open>AddNode\<close> calls build from new
  ones when they declare the same keys and the same edges, in whatever order.
\<close>

theorem IDs_Order_deterministic:
  "sorted (IDs d) \<and> distinct (IDs d) \<and> set (IDs d) = fmdom' (dag d)
   \<and> (\<forall>ks. distinct ks \<and> set ks = fmdom' (dag d) \<longrightarrow> IDs_of ks = IDs d)
   \<and> (fmdom (dag d') = fmdom (dag d) \<and> (\<forall>u. mset (ChildrenOf d' u) = mset (ChildrenOf d u))
        \<longrightarrow> IDs d' = IDs d \<and> Order d' = Order d)
   \<and> (AddNodes New calls = Inr (d, errs) \<and> AddNodes New calls' = Inr (d', errs')
        \<and> keys_declared calls' errs' = keys_declared calls errs
        \<and> edges_declared calls' errs' = edges_declared calls errs
        \<longrightarrow> IDs d' = IDs d \<and> Order d' = Order d)"
proof -
  have 1: "sorted (IDs d)" by (simp add: IDs_def IDs_of_def)
  have 2: "distinct (IDs d)" by (simp add: IDs_def IDs_of_def sorted_list_of_fset.rep_eq)
  have 3: "set (IDs d) = fmdom' (dag d)" by (rule set_IDs)
  have 4: "\<forall>ks. distinct ks \<and> set ks = fmdom' (dag d) \<longrightarrow> IDs_of ks = IDs d"
    using IDs_of_any_order by blast
  have same: "IDs d' = IDs d \<and> Order d' = Order d"
    if a: "fmdom (dag d') = fmdom (dag d)" "\<And>u. mset (ChildrenOf d' u) = mset (ChildrenOf d u)"
  proof
    from a show i: "IDs d' = IDs d" by (simp add: IDs_def)
    from a have "\<And>u. mset (dag_at (dag d') u) = mset (dag_at (dag d) u)"
      by (simp add: ChildrenOf_def)
    from Order_range_perm[OF this] i show "Order d' = Order d"
      by (simp add: Order_def)
  qed
  have 5: "fmdom (dag d') = fmdom (dag d) \<and> (\<forall>u. mset (ChildrenOf d' u) = mset (ChildrenOf d u))
        \<longrightarrow> IDs d' = IDs d \<and> Order d' = Order d"
    using same by blast
  have 6: "AddNodes New calls = Inr (d, errs) \<and> AddNodes New calls' = Inr (d', errs')
        \<and> keys_declared calls' errs' = keys_declared calls errs
        \<and> edges_declared calls' errs' = edges_declared calls errs
        \<longrightarrow> IDs d' = IDs d \<and> Order d' = Order d"
  proof
    assume a: "AddNodes New calls = Inr (d, errs) \<and> AddNodes New calls' = Inr (d', errs')
        \<and> keys_declared calls' errs' = keys_declared calls errs
        \<and> edges_declared calls' errs' = edges_declared calls errs"
    then have r: "AddNodes New calls' = Inr (d', errs')" "AddNodes New calls = Inr (d, errs)"
      "keys_declared calls' errs' = keys_declared calls errs"
      "edges_declared calls' errs' = edges_declared calls errs" by simp_all
    show "IDs d' = IDs d \<and> Order d' = Order d"
      by (rule same) (rule same_declarations[OF r])+
  qed
  show ?thesis using 1 2 3 4 5 6 by blast
qed

theorem IDs_Order_deterministic_witness:
  "AddNodes (New :: unit DAG) [(''A'', (), [], [''B'', ''C'']), (''B'', (), [], [])]
     = Inr (\<lparr>dag = fmupd ''B'' [] (fmupd ''A'' [''B'', ''C''] fmempty),
             node_values = fmupd ''B'' () (fmupd ''A'' () fmempty),
             cycles = fmempty, validated = False\<rparr>, [None, None])
   \<and> AddNodes (New :: nat DAG) [(''B'', 2, [], []), (''A'', 1, [], [''C'', ''B''])]
     = Inr (\<lparr>dag = fmupd ''A'' [''C'', ''B''] (fmupd ''B'' [] fmempty),
             node_values = fmupd ''A'' 1 (fmupd ''B'' 2 fmempty),
             cycles = fmempty, validated = False\<rparr>, [None, None])
   \<and> keys_declared [(''B'', 2 :: nat, [], []), (''A'', 1, [], [''C'', ''B''])] [None, None]
       = keys_declared [(''A'', (), [], [''B'', ''C'']), (''B'', (), [], [])] [None, None]
   \<and> edges_declared [(''B'', 2 :: nat, [], []), (''A'', 1, [], [''C'', ''B''])] [None, None]
       = edges_declared [(''A'', (), [], [''B'', ''C'']), (''B'', (), [], [])] [None, None]
   \<and> distinct [''B'', ''A''] \<and> set [''B'', ''A'']
       = fmdom' (dag \<lparr>dag = fmupd ''B'' [] (fmupd ''A'' [''B'', ''C''] fmempty),
             node_values = fmupd ''B'' () (fmupd ''A'' () fmempty),
             cycles = fmempty, validated = False\<rparr>)
   \<and> IDs_of [''B'', ''A'']
       = IDs \<lparr>dag = fmupd ''B'' [] (fmupd ''A'' [''B'', ''C''] fmempty),
             node_values = fmupd ''B'' () (fmupd ''A'' () fmempty),
             cycles = fmempty, validated = False\<rparr>
   \<and> (\<forall>u. mset (ChildrenOf \<lparr>dag = fmupd ''A'' [''C'', ''B''] (fmupd ''B'' [] fmempty),
             node_values = fmupd ''A'' (1 :: nat) (fmupd ''B'' 2 fmempty),
             cycles = fmempty, validated = False\<rparr> u)
         = mset (ChildrenOf \<lparr>dag = fmupd ''B'' [] (fmupd ''A'' [''B'', ''C''] fmempty),
             node_values = fmupd ''B'' () (fmupd ''A'' () fmempty),
             cycles = fmempty, validated = False\<rparr> u))
   \<and> ChildrenOf \<lparr>dag = fmupd ''A'' [''C'', ''B''] (fmupd ''B'' [] fmempty),
             node_values = fmupd ''A'' (1 :: nat) (fmupd ''B'' 2 fmempty),
             cycles = fmempty, validated = False\<rparr> ''A''
       \<noteq> ChildrenOf \<lparr>dag = fmupd ''B'' [] (fmupd ''A'' [''B'', ''C''] fmempty),
             node_values = fmupd ''B'' () (fmupd ''A'' () fmempty),
             cycles = fmempty, validated = False\<rparr> ''A''
   \<and> IDs \<lparr>dag = fmupd ''A'' [''C'', ''B''] (fmupd ''B'' [] fmempty),
             node_values = fmupd ''A'' (1 :: nat) (fmupd ''B'' 2 fmempty),
             cycles = fmempty, validated = False\<rparr>
       = [''A'', ''B'']
   \<and> IDs \<lparr>dag = fmupd ''B'' [] (fmupd ''A'' [''B'', ''C''] fmempty),
             node_values = fmupd ''B'' () (fmupd ''A'' () fmempty),
             cycles = fmempty, validated = False\<rparr>
       = [''A'', ''B'']
   \<and> Order \<lparr>dag = fmupd ''A'' [''C'', ''B''] (fmupd ''B'' [] fmempty),
             node_values = fmupd ''A'' (1 :: nat) (fmupd ''B'' 2 fmempty),
             cycles = fmempty, validated = False\<rparr>
       = Some [''B'', ''C'', ''A'']
   \<and> Order \<lparr>dag = fmupd ''B'' [] (fmupd ''A'' [''B'', ''C''] fmempty),
             node_values = fmupd ''B'' () (fmupd ''A'' () fmempty),
             cycles = fmempty, validated = False\<rparr>
       = Some [''B'', ''C'', ''A'']"
proof -
  let ?calls = "[(''A'', (), [], [''B'', ''C'']), (''B'', (), [], [])] :: unit call list"
  let ?calls' = "[(''B'', 2, [], []), (''A'', 1, [], [''C'', ''B''])] :: nat call list"
  let ?d = "\<lparr>dag = fmupd ''B'' [] (fmupd ''A'' [''B'', ''C''] fmempty),
             node_values = fmupd ''B'' () (fmupd ''A'' () fmempty),
             cycles = fmempty, validated = False\<rparr>"
  let ?d' = "\<lparr>dag = fmupd ''A'' [''C'', ''B''] (fmupd ''B'' [] fmempty),
             node_values = fmupd ''A'' (1 :: nat) (fmupd ''B'' 2 fmempty),
             cycles = fmempty, validated = False\<rparr>"
  have run: "AddNodes (New :: unit DAG) ?calls = Inr (?d, [None, None])" by code_simp
  have run': "AddNodes (New :: nat DAG) ?calls' = Inr (?d', [None, None])" by code_simp
  have kd: "keys_declared ?calls' [None, None] = keys_declared ?calls [None, None]"
    by (auto simp: keys_declared_def)
  have ed: "edges_declared ?calls' [None, None] = edges_declared ?calls [None, None]"
    by (auto simp: edges_declared_def)
  have ks: "distinct [''B'', ''A''] \<and> set [''B'', ''A''] = fmdom' (dag ?d)" by auto
  have dom: "fmdom (dag ?d') = fmdom (dag ?d)" by auto
  have ch: "\<forall>u. mset (ChildrenOf ?d' u) = mset (ChildrenOf ?d u)"
    by (simp add: ChildrenOf_def dag_at_def)
  have ne: "ChildrenOf ?d' ''A'' \<noteq> ChildrenOf ?d ''A''"
    by (simp add: ChildrenOf_def dag_at_def)
  have ids: "IDs ?d = [''A'', ''B'']" by code_simp
  have ord: "Order ?d = Some [''B'', ''C'', ''A'']" by code_simp
  note t = IDs_Order_deterministic[of ?d ?d' ?calls "[None, None]" ?calls' "[None, None]"]
  from t ks have 1: "IDs_of [''B'', ''A''] = IDs ?d" by blast
  from t dom ch have 2: "IDs ?d' = IDs ?d" "Order ?d' = Order ?d" by blast+
  from t run run' kd ed have 3: "IDs ?d' = IDs ?d \<and> Order ?d' = Order ?d" by blast
  show ?thesis using run run' kd ed ks 1 2 ch ne ids ord by simp
qed

end
